theory Spec2Isabelle
  imports Main "HOL-Library.AList"
begin

section \<open>The sudoku board of \<^verbatim>\<open>src/js/sudoku.js\<close>\<close>

text \<open>
  The model follows the functions \<^verbatim>\<open>Cell\<close> and \<^verbatim>\<open>Board\<close> of the source. JavaScript numbers
  that the board handles (rows, columns, indices, cell values) are integers and are modelled
  by \<open>int\<close>. An exception is a result of its own: the three \<^verbatim>\<open>SudokuBoardError\<close>s of the
  constructor are the constructors of \<open>error\<close>, and the \<^verbatim>\<open>TypeError\<close> that JavaScript raises
  when a field of \<^verbatim>\<open>undefined\<close> is read is the result \<open>None\<close> of the operations after
  construction.
\<close>

subsection \<open>Cells and object identity\<close>

text \<open>The fields of a \<^verbatim>\<open>Cell\<close>; the field \<^verbatim>\<open>value\<close> is called \<open>val\<close> here.\<close>

record cell =
  row :: int
  column :: int
  val :: int
  isFixed :: bool

text \<open>\<^verbatim>\<open>Cell.fromCell\<close>: a new cell with the fields of the given one.\<close>

definition Cell_fromCell :: "cell \<Rightarrow> cell" where
  "Cell_fromCell c = \<lparr>row = row c, column = column c, val = val c, isFixed = isFixed c\<rparr>"

text \<open>
  The private array \<^verbatim>\<open>cells\<close> of a board is a \<open>cell list\<close>. Its slots are assigned once, by
  \<^verbatim>\<open>init\<close>, each with a new object, so the object in slot \<open>i\<close> is identified with \<open>i\<close>.
  A JavaScript variable that holds a cell holds a reference: either to the board's own
  object in slot \<open>i\<close> (\<open>Own i\<close>) or to an object made by \<^verbatim>\<open>Cell.fromCell\<close>, which only the
  holder of the reference can reach (\<open>Fresh c\<close>, with its current fields).
\<close>

datatype cellobj = Own nat | Fresh cell

fun deref :: "cell list \<Rightarrow> cellobj \<Rightarrow> cell" where
  "deref cells (Own i) = cells ! i"
| "deref cells (Fresh c) = c"

text \<open>The assignment \<^verbatim>\<open>cell.value = v\<close> through a reference: the new reference and the new board.\<close>

fun assign_value :: "cellobj \<Rightarrow> int \<Rightarrow> cell list \<Rightarrow> cellobj \<times> cell list" where
  "assign_value (Own i) v cells = (Own i, cells[i := (cells ! i)\<lparr>val := v\<rparr>])"
| "assign_value (Fresh c) v cells = (Fresh (c\<lparr>val := v\<rparr>), cells)"

subsection \<open>Index arithmetic\<close>

definition calcCellIndexFromBoardPosition :: "int \<Rightarrow> int \<Rightarrow> int" where
  "calcCellIndexFromBoardPosition r c = (r - 1) * 9 + (c - 1)"

text \<open>The only caller passes the loop counter of \<^verbatim>\<open>init\<close>, which is never negative.\<close>

definition calcBoardPositionFromIndex :: "nat \<Rightarrow> int \<times> int" where
  "calcBoardPositionFromIndex idx = (int (idx div 9) + 1, int (idx mod 9) + 1)"

text \<open>Reading \<^verbatim>\<open>cells[idx]\<close>: outside the array the result is \<^verbatim>\<open>undefined\<close>, here \<open>None\<close>.\<close>

definition array_get :: "cell list \<Rightarrow> int \<Rightarrow> cellobj option" where
  "array_get cells idx = (if 0 \<le> idx \<and> idx < int (length cells) then Some (Own (nat idx)) else None)"

text \<open>
  \<^verbatim>\<open>getCellAtPosition(row, col, copy)\<close>. With \<^verbatim>\<open>copy\<close> set, \<^verbatim>\<open>Cell.fromCell(undefined)\<close> raises;
  without it \<^verbatim>\<open>undefined\<close> is returned and every caller raises at once, reading a field of it.
\<close>

definition getCellAtPosition :: "cell list \<Rightarrow> int \<Rightarrow> int \<Rightarrow> bool \<Rightarrow> cellobj option" where
  "getCellAtPosition cells r c copy =
     (case array_get cells (calcCellIndexFromBoardPosition r c) of
        None \<Rightarrow> None
      | Some obj \<Rightarrow> Some (if copy then Fresh (Cell_fromCell (deref cells obj)) else obj))"

subsection \<open>Construction\<close>

datatype jsvalue = JSString string | JSNumber int | JSBoolean bool | JSNull | JSUndefined

datatype error = NotAString | WrongLength | InvalidCellValue

definition is_digit :: "char \<Rightarrow> bool" where
  "is_digit ch = (48 \<le> (of_char ch :: nat) \<and> (of_char ch :: nat) \<le> 57)"

definition digit_value :: "char \<Rightarrow> int" where
  "digit_value ch = int (of_char ch) - 48"

text \<open>
  \<^verbatim>\<open>parseInt(boardDef[i], 10)\<close> on a string of one character: the digit's value, or \<^verbatim>\<open>NaN\<close>
  (here \<open>None\<close>) for any other character.
\<close>

definition parseInt :: "char \<Rightarrow> int option" where
  "parseInt ch = (if is_digit ch then Some (digit_value ch) else None)"

text \<open>
  The loop of \<^verbatim>\<open>init\<close>. The assignment \<^verbatim>\<open>cells[i] = new Cell(...)\<close> appends when \<open>i\<close> is the
  length of the array, which it is at every iteration (the array starts empty at \<open>i = 0\<close>).
\<close>

function init_loop :: "string \<Rightarrow> nat \<Rightarrow> cell list \<Rightarrow> error + cell list" where
  "init_loop boardDef i cells =
     (if i < length boardDef then
        (let pos = calcBoardPositionFromIndex i;
             num = parseInt (boardDef ! i)
         in case num of
              None \<Rightarrow> Inl InvalidCellValue
            | Some n \<Rightarrow>
                if n < 0 \<or> n > 9 then Inl InvalidCellValue
                else init_loop boardDef (i + 1)
                       ((if i < length cells then cells[i := \<lparr>row = fst pos, column = snd pos, val = n, isFixed = (n \<noteq> 0)\<rparr>]
                         else cells @ [\<lparr>row = fst pos, column = snd pos, val = n, isFixed = (n \<noteq> 0)\<rparr>])))
      else Inr cells)"
  by pat_completeness auto
termination
  by (relation "measure (\<lambda>(boardDef, i, cells). length boardDef - i)") auto

declare init_loop.simps [simp del]

text \<open>\<^verbatim>\<open>new Board(boardDef)\<close>: the private array of the new board, or the error thrown.\<close>

definition Board :: "jsvalue \<Rightarrow> error + cell list" where
  "Board boardDef =
     (case boardDef of
        JSString s \<Rightarrow> (if length s \<noteq> 81 then Inl WrongLength else init_loop s 0 [])
      | _ \<Rightarrow> Inl NotAString)"

subsection \<open>The three walks\<close>

text \<open>
  A \<^verbatim>\<open>for\<close> loop whose body may leave the enclosing function: the body returns the new state
  and whether the loop goes on; \<open>None\<close> is an exception.
\<close>

fun for_each :: "('a \<Rightarrow> 's \<Rightarrow> ('s \<times> bool) option) \<Rightarrow> 'a list \<Rightarrow> 's \<Rightarrow> ('s \<times> bool) option" where
  "for_each body [] s = Some (s, True)"
| "for_each body (x # xs) s =
     (case body x s of
        None \<Rightarrow> None
      | Some (s', go) \<Rightarrow> if go then for_each body xs s' else Some (s', False))"

text \<open>
  A callback gets the cell (or \<^verbatim>\<open>undefined\<close>), the number of the group and whether the cell
  starts a group; it returns the new state of the variables it closes over and \<open>False\<close>
  when the JavaScript callback returns \<^verbatim>\<open>false\<close>.
\<close>

type_synonym 's callback = "cellobj option \<Rightarrow> int \<Rightarrow> bool \<Rightarrow> 's \<Rightarrow> ('s \<times> bool) option"

definition walkCellsByRow :: "cell list \<Rightarrow> 's callback \<Rightarrow> 's \<Rightarrow> 's option" where
  "walkCellsByRow cells cb s =
     map_option fst
       (for_each (\<lambda>r. for_each (\<lambda>c. cb (getCellAtPosition cells r c False) r (c = 1)) [1..9]) [1..9] s)"

definition walkCellsByColumn :: "cell list \<Rightarrow> 's callback \<Rightarrow> 's \<Rightarrow> 's option" where
  "walkCellsByColumn cells cb s =
     map_option fst
       (for_each (\<lambda>c. for_each (\<lambda>r. cb (getCellAtPosition cells r c False) c (r = 1)) [1..9]) [1..9] s)"

definition cellIndices :: "int \<Rightarrow> int list" where
  "cellIndices firstCellIdx =
     [firstCellIdx, firstCellIdx + 1, firstCellIdx + 2,
      firstCellIdx + 9, firstCellIdx + 10, firstCellIdx + 11,
      firstCellIdx + 18, firstCellIdx + 19, firstCellIdx + 20]"

definition walkCellsByBox :: "cell list \<Rightarrow> 's callback \<Rightarrow> 's \<Rightarrow> 's option" where
  "walkCellsByBox cells cb s =
     map_option fst
       (for_each (\<lambda>boxIdx.
          let firstCellIdx = (boxIdx div 3) * 27 + (boxIdx mod 3 * 3) in
          for_each (\<lambda>inBoxIdx.
            cb (array_get cells (cellIndices firstCellIdx ! nat inBoxIdx)) (boxIdx + 1) (inBoxIdx = 0))
            [0..8])
          [0..8] s)"

subsection \<open>Reading and writing cells\<close>

text \<open>
  \<^verbatim>\<open>getBoard\<close> returns \<^verbatim>\<open>$.extend(true, [], cells)\<close>: a new array with the cells in index order.
  Whether its elements are the board's own objects or clones is decided by jQuery's
  \<^verbatim>\<open>extend\<close>, which is not part of the repository; the model gives the fields of the elements.
\<close>

definition getBoard :: "cell list \<Rightarrow> cell list" where
  "getBoard cells = cells"

definition getCell :: "cell list \<Rightarrow> int \<Rightarrow> int \<Rightarrow> cellobj option" where
  "getCell cells r c = getCellAtPosition cells r c True"

text \<open>\<^verbatim>\<open>setCellValue\<close>: the returned flag and the new board.\<close>

definition setCellValue :: "cell list \<Rightarrow> int \<Rightarrow> int \<Rightarrow> int \<Rightarrow> (bool \<times> cell list) option" where
  "setCellValue cells r c v =
     (case getCellAtPosition cells r c False of
        None \<Rightarrow> None
      | Some obj \<Rightarrow>
          (let cells' = (if \<not> isFixed (deref cells obj) then snd (assign_value obj v cells) else cells)
           in Some (\<not> isFixed (deref cells' obj), cells')))"

text \<open>\<^verbatim>\<open>restart\<close>: the callback never returns \<^verbatim>\<open>false\<close>; its state is the board.\<close>

definition restart_cb :: "(cell list) callback" where
  "restart_cb cell x newX cells =
     (case cell of
        None \<Rightarrow> None
      | Some obj \<Rightarrow>
          Some (if \<not> isFixed (deref cells obj) then snd (assign_value obj 0 cells) else cells, True))"

definition restart :: "cell list \<Rightarrow> cell list option" where
  "restart cells = walkCellsByRow cells restart_cb cells"

subsection \<open>Win detection\<close>

text \<open>
  The callback of \<^verbatim>\<open>check\<close> in \<^verbatim>\<open>hasWon\<close>. Its state is \<^verbatim>\<open>won\<close>, a variable of \<^verbatim>\<open>hasWon\<close>, and
  \<^verbatim>\<open>usedNumbers\<close>, a variable of \<^verbatim>\<open>check\<close> that is \<^verbatim>\<open>undefined\<close> (\<open>None\<close>) until the first group
  starts. A value is falsy exactly when it is \<open>0\<close>.
\<close>

definition hasWon_cb :: "cell list \<Rightarrow> (bool \<times> (int \<rightharpoonup> bool) option) callback" where
  "hasWon_cb cells cell x newX s =
     (case s of (won, usedNumbers) \<Rightarrow>
        (let usedNumbers = (if newX then Some Map.empty else usedNumbers) in
         case cell of
           None \<Rightarrow> None
         | Some obj \<Rightarrow>
             (let v = val (deref cells obj) in
              if v = 0 then Some ((False, usedNumbers), False)
              else (case usedNumbers of
                      None \<Rightarrow> None
                    | Some used \<Rightarrow>
                        if used v = Some True then Some ((False, usedNumbers), False)
                        else Some ((won, Some (used(v \<mapsto> True))), won)))))"

definition hasWon_check ::
  "cell list \<Rightarrow>
   ((bool \<times> (int \<rightharpoonup> bool) option) callback \<Rightarrow>
      (bool \<times> (int \<rightharpoonup> bool) option) \<Rightarrow> (bool \<times> (int \<rightharpoonup> bool) option) option)
   \<Rightarrow> bool \<Rightarrow> bool option" where
  "hasWon_check cells walkFun won = map_option fst (walkFun (hasWon_cb cells) (won, None))"

definition hasWon :: "cell list \<Rightarrow> bool option" where
  "hasWon cells =
     (case hasWon_check cells (walkCellsByRow cells) True of
        None \<Rightarrow> None
      | Some won1 \<Rightarrow>
          (case (if \<not> won1 then hasWon_check cells (walkCellsByColumn cells) won1 else Some won1) of
             None \<Rightarrow> None
           | Some won2 \<Rightarrow>
               (if \<not> won2 then hasWon_check cells (walkCellsByBox cells) won2 else Some won2)))"

subsection \<open>Conflict detection\<close>

text \<open>
  \<^verbatim>\<open>cellsWithValue\<close> is an object whose property names are cell values. It is modelled by an
  association list in the order in which the properties were created. Enumerating the
  properties (\<^verbatim>\<open>$.each\<close> on an object) visits the names that are array indices in
  ascending order and then the others in the order of creation.
\<close>

type_synonym 'v jsobject = "(int \<times> 'v) list"

definition is_array_index :: "int \<Rightarrow> bool" where
  "is_array_index k = (0 \<le> k \<and> k < 4294967295)"

definition own_properties :: "'v jsobject \<Rightarrow> (int \<times> 'v) list" where
  "own_properties obj =
     sort_key fst (filter (\<lambda>p. is_array_index (fst p)) obj) @ filter (\<lambda>p. \<not> is_array_index (fst p)) obj"

text \<open>
  The callback given to \<^verbatim>\<open>$.each\<close> in \<^verbatim>\<open>getConflicts\<close>, run over all properties:
  every list of more than one cell is appended to \<^verbatim>\<open>conflicts\<close>.
\<close>

definition add_conflicts :: "cellobj list jsobject \<Rightarrow> cellobj list \<Rightarrow> cellobj list" where
  "add_conflicts cellsWithValue conflicts =
     fold (\<lambda>(v, cs) conflicts. if length cs > 1 then conflicts @ cs else conflicts)
       (own_properties cellsWithValue) conflicts"

text \<open>
  The callback of \<^verbatim>\<open>check\<close> in \<^verbatim>\<open>getConflicts\<close>. Its state is \<^verbatim>\<open>conflicts\<close> and
  \<^verbatim>\<open>cellsWithValue\<close>, which is \<^verbatim>\<open>undefined\<close> (\<open>None\<close>) until the first group starts.
\<close>

definition getConflicts_cb :: "cell list \<Rightarrow> (cellobj list \<times> cellobj list jsobject option) callback" where
  "getConflicts_cb cells cell x newX s =
     (case s of (conflicts, cellsWithValue) \<Rightarrow>
        (let (conflicts, cellsWithValue) =
               (if newX then
                  ((case cellsWithValue of None \<Rightarrow> conflicts | Some obj \<Rightarrow> add_conflicts obj conflicts), Some [])
                else (conflicts, cellsWithValue))
         in case cell of
              None \<Rightarrow> None
            | Some c \<Rightarrow>
                (let v = val (deref cells c) in
                 if v \<noteq> 0 then
                   (case cellsWithValue of
                      None \<Rightarrow> None
                    | Some obj \<Rightarrow>
                        (case map_of obj v of
                           None \<Rightarrow> Some ((conflicts, Some (AList.update v [c] obj)), True)
                         | Some cs \<Rightarrow> Some ((conflicts, Some (AList.update v (cs @ [c]) obj)), True)))
                 else Some ((conflicts, cellsWithValue), True))))"

text \<open>\<^verbatim>\<open>check\<close> in \<^verbatim>\<open>getConflicts\<close>: the walk, and then the last group.\<close>

definition getConflicts_check ::
  "cell list \<Rightarrow>
   ((cellobj list \<times> cellobj list jsobject option) callback \<Rightarrow>
      (cellobj list \<times> cellobj list jsobject option) \<Rightarrow> (cellobj list \<times> cellobj list jsobject option) option)
   \<Rightarrow> cellobj list \<Rightarrow> cellobj list option" where
  "getConflicts_check cells walkFun conflicts =
     (case walkFun (getConflicts_cb cells) (conflicts, None) of
        None \<Rightarrow> None
      | Some (conflicts, cellsWithValue) \<Rightarrow>
          (case cellsWithValue of
             None \<Rightarrow> None
           | Some obj \<Rightarrow> Some (add_conflicts obj conflicts)))"

text \<open>\<^verbatim>\<open>unique\<close>: \<^verbatim>\<open>$.inArray\<close> compares with \<^verbatim>\<open>===\<close>, which on objects is identity.\<close>

definition unique :: "cellobj list \<Rightarrow> cellobj list" where
  "unique arr = fold (\<lambda>elem result. if elem \<notin> set result then result @ [elem] else result) arr []"

text \<open>The comparison function given to \<^verbatim>\<open>sort\<close>.\<close>

definition compare_cells :: "cell \<Rightarrow> cell \<Rightarrow> int" where
  "compare_cells a b =
     (if row a < row b then -1
      else if row a > row b then 1
      else if column a < column b then -1
      else if column a > column b then 1
      else 0)"

text \<open>
  \<^verbatim>\<open>Array.prototype.sort\<close> with a comparison function: a stable sort, here by insertion.
\<close>

fun insert_sorted :: "('a \<Rightarrow> 'a \<Rightarrow> int) \<Rightarrow> 'a \<Rightarrow> 'a list \<Rightarrow> 'a list" where
  "insert_sorted cmp x [] = [x]"
| "insert_sorted cmp x (y # ys) = (if cmp x y \<le> 0 then x # y # ys else y # insert_sorted cmp x ys)"

definition array_sort :: "('a \<Rightarrow> 'a \<Rightarrow> int) \<Rightarrow> 'a list \<Rightarrow> 'a list" where
  "array_sort cmp xs = foldr (insert_sorted cmp) xs []"

text \<open>
  \<^verbatim>\<open>getConflicts\<close>: the returned array holds the very objects that the walks passed to the
  callback.
\<close>

definition getConflicts :: "cell list \<Rightarrow> cellobj list option" where
  "getConflicts cells =
     (case getConflicts_check cells (walkCellsByRow cells) [] of
        None \<Rightarrow> None
      | Some conflicts1 \<Rightarrow>
          (case getConflicts_check cells (walkCellsByColumn cells) conflicts1 of
             None \<Rightarrow> None
           | Some conflicts2 \<Rightarrow>
               (case getConflicts_check cells (walkCellsByBox cells) conflicts2 of
                  None \<Rightarrow> None
                | Some conflicts3 \<Rightarrow>
                    Some (array_sort (\<lambda>a b. compare_cells (deref cells a) (deref cells b)) (unique conflicts3)))))"

section \<open>Definitions used to state and prove the properties\<close>

subsection \<open>Example boards\<close>

text \<open>The first puzzle of the corpus in the source file, and the board built from a string.\<close>

definition puzzle1 :: string where
  "puzzle1 = ''000091000000700600001003040002050406090006007078400010080309100406810000030000000''"

definition puzzle_bad_char :: string where
  "puzzle_bad_char = ''00009100000070060000100304000205040609000600707840001008030910040681000003000000x''"

definition board_of :: "string \<Rightarrow> cell list" where
  "board_of s = (case Board (JSString s) of Inr cells \<Rightarrow> cells | Inl e \<Rightarrow> [])"

text \<open>Every row is 1 to 9, so every column holds one digit nine times.\<close>

definition puzzle_rows_only :: string where
  "puzzle_rows_only = concat (replicate 9 ''123456789'')"

text \<open>A solved grid.\<close>

definition puzzle_solved :: string where
  "puzzle_solved = ''534678912672195348198342567859761423426853791713924856961537284287419635345286179''"

text \<open>Two fixed 5s side by side in the first row, all other cells empty.\<close>

definition puzzle_two_fives :: string where
  "puzzle_two_fives = ''55'' @ replicate 79 (CHR ''0'')"

text \<open>The board of \<open>puzzle1\<close> after \<^verbatim>\<open>setCellValue(1, 1, 9)\<close>: two 9s in the first row.\<close>

definition puzzle1_conflict :: "cell list" where
  "puzzle1_conflict = (board_of puzzle1)[0 := (board_of puzzle1 ! 0)\<lparr>val := 9\<rparr>]"

text \<open>The board of \<open>puzzle1\<close> with 10 in the first cell, as after \<^verbatim>\<open>setCellValue(1, 1, 10)\<close>.\<close>

definition puzzle1_ten :: "cell list" where
  "puzzle1_ten = (board_of puzzle1)[0 := (board_of puzzle1 ! 0)\<lparr>val := 10\<rparr>]"

text \<open>The board of \<open>puzzle1\<close> after \<^verbatim>\<open>setCellValue(1, 1, 5)\<close>.\<close>

definition puzzle1_moved :: "cell list" where
  "puzzle1_moved = (board_of puzzle1)[0 := (board_of puzzle1 ! 0)\<lparr>val := 5\<rparr>]"

subsection \<open>Board states\<close>

text \<open>The states a board can be in: built by the constructor, then changed by its two mutators.\<close>

inductive reachable :: "cell list \<Rightarrow> bool" where
  constructed: "Board boardDef = Inr cells \<Longrightarrow> reachable cells"
| after_setCellValue: "reachable cells \<Longrightarrow> setCellValue cells r c v = Some (ok, cells') \<Longrightarrow> reachable cells'"
| after_restart: "reachable cells \<Longrightarrow> restart cells = Some cells' \<Longrightarrow> reachable cells'"

text \<open>The cell that \<^verbatim>\<open>init\<close> makes at index \<open>i\<close> from the digit \<open>ch\<close>.\<close>

definition new_cell :: "nat \<Rightarrow> char \<Rightarrow> cell" where
  "new_cell i ch = \<lparr>row = int (i div 9) + 1, column = int (i mod 9) + 1, val = digit_value ch, isFixed = (digit_value ch \<noteq> 0)\<rparr>"

text \<open>81 cells, each with the row and column of its index.\<close>

definition well_formed :: "cell list \<Rightarrow> bool" where
  "well_formed cells = (length cells = 81 \<and>
     (\<forall>i\<in>{0..<81}. row (cells ! i) = int (i div 9) + 1 \<and> column (cells ! i) = int (i mod 9) + 1))"

definition values_in_range :: "cell list \<Rightarrow> bool" where
  "values_in_range cells = list_all (\<lambda>c. 0 \<le> val c \<and> val c \<le> 9) cells"

text \<open>What \<^verbatim>\<open>restart\<close> does to one cell.\<close>

definition reset_cell :: "cell \<Rightarrow> cell" where
  "reset_cell c = (if isFixed c then c else c\<lparr>val := 0\<rparr>)"

subsection \<open>The walks as lists of visits\<close>

text \<open>
  On a board of 81 cells every cell that a walk looks up exists, and the walk is one loop over
  a fixed list of visits: the index of the cell, the number of the group and the flag.
\<close>

definition walk_visits :: "'s callback \<Rightarrow> (nat \<times> int \<times> bool) list \<Rightarrow> 's \<Rightarrow> ('s \<times> bool) option" where
  "walk_visits cb vs s = for_each (\<lambda>(i, x, n). cb (Some (Own i)) x n) vs s"

definition row_visits :: "(nat \<times> int \<times> bool) list" where
  "row_visits = map (\<lambda>(r, c). (nat (calcCellIndexFromBoardPosition r c), r, c = 1)) (List.product [1..9] [1..9])"

definition column_visits :: "(nat \<times> int \<times> bool) list" where
  "column_visits = map (\<lambda>(c, r). (nat (calcCellIndexFromBoardPosition r c), c, r = 1)) (List.product [1..9] [1..9])"

definition box_visits :: "(nat \<times> int \<times> bool) list" where
  "box_visits = map (\<lambda>(b, k). (nat (cellIndices ((b div 3) * 27 + (b mod 3 * 3)) ! nat k), b + 1, k = 0))
                  (List.product [0..8] [0..8])"

subsection \<open>The walk by box, observed\<close>

text \<open>A callback that records every call and never stops the walk.\<close>

definition record_cb :: "((cellobj option \<times> int \<times> bool) list) callback" where
  "record_cb cell x newX trace = Some (trace @ [(cell, x, newX)], True)"

text \<open>
  The positions of box \<open>b\<close>: rows \<open>3 * ((b - 1) div 3) + 1\<close> to \<open>+ 3\<close> crossed with columns
  \<open>3 * ((b - 1) mod 3) + 1\<close> to \<open>+ 3\<close>, row by row; and the calls expected of the walk: box after
  box, each position of the box with the box's number and the flag set at the first one.
\<close>

definition box_positions :: "int \<Rightarrow> (int \<times> int) list" where
  "box_positions b =
     List.product [3 * ((b - 1) div 3) + 1 .. 3 * ((b - 1) div 3) + 3]
                  [3 * ((b - 1) mod 3) + 1 .. 3 * ((b - 1) mod 3) + 3]"

definition box_trace :: "cell list \<Rightarrow> (cellobj option \<times> int \<times> bool) list" where
  "box_trace cells =
     concat (map (\<lambda>b. map (\<lambda>p. (getCellAtPosition cells (fst p) (snd p) False, b, p = hd (box_positions b)))
                          (box_positions b)) [1..9])"

subsection \<open>A solved board, in the words of the specification\<close>

text \<open>
  No cell is empty, and the values of each row, of each column and of each box are pairwise
  distinct. The box of a cell is counted row by row from its row and column.
\<close>

definition box_of :: "cell \<Rightarrow> int" where
  "box_of c = 3 * ((row c - 1) div 3) + (column c - 1) div 3 + 1"

definition solved :: "cell list \<Rightarrow> bool" where
  "solved cells =
     (list_all (\<lambda>c. val c \<noteq> 0) cells \<and>
      list_all (\<lambda>k. distinct (map val (filter (\<lambda>c. row c = k) cells))) [1..9] \<and>
      list_all (\<lambda>k. distinct (map val (filter (\<lambda>c. column c = k) cells))) [1..9] \<and>
      list_all (\<lambda>k. distinct (map val (filter (\<lambda>c. box_of c = k) cells))) [1..9])"

subsection \<open>Conflict detection, group by group\<close>

text \<open>
  What the callback of \<^verbatim>\<open>getConflicts\<close> does with the cell of slot \<open>i\<close> once the group has
  started, the object it has built when a group ends, and the cells that group adds to
  \<^verbatim>\<open>conflicts\<close>.
\<close>

definition bucket_add :: "cell list \<Rightarrow> cellobj list jsobject \<Rightarrow> nat \<Rightarrow> cellobj list jsobject" where
  "bucket_add cells obj i =
     (let v = val (cells ! i) in
      if v \<noteq> 0 then
        (case map_of obj v of
           None \<Rightarrow> AList.update v [Own i] obj
         | Some cs \<Rightarrow> AList.update v (cs @ [Own i]) obj)
      else obj)"

definition group_buckets :: "cell list \<Rightarrow> nat list \<Rightarrow> cellobj list jsobject" where
  "group_buckets cells g = fold (\<lambda>i obj. bucket_add cells obj i) g []"

definition group_conflicts :: "cell list \<Rightarrow> nat list \<Rightarrow> cellobj list" where
  "group_conflicts cells g = add_conflicts (group_buckets cells g) []"

text \<open>The start of a group: the object of the group before, if there is one, is emptied into \<^verbatim>\<open>conflicts\<close>.\<close>

definition flush :: "cellobj list jsobject option \<Rightarrow> cellobj list \<Rightarrow> cellobj list" where
  "flush cellsWithValue conflicts =
     (case cellsWithValue of None \<Rightarrow> conflicts | Some obj \<Rightarrow> add_conflicts obj conflicts)"

text \<open>The slots that each walk visits as one group.\<close>

definition row_group :: "int \<Rightarrow> nat list" where
  "row_group r = map (\<lambda>c. nat (calcCellIndexFromBoardPosition r c)) [1, 2, 3, 4, 5, 6, 7, 8, 9]"

definition column_group :: "int \<Rightarrow> nat list" where
  "column_group c = map (\<lambda>r. nat (calcCellIndexFromBoardPosition r c)) [1, 2, 3, 4, 5, 6, 7, 8, 9]"

definition box_group :: "int \<Rightarrow> nat list" where
  "box_group boxIdx =
     map (\<lambda>inBoxIdx. nat (cellIndices ((boxIdx div 3) * 27 + (boxIdx mod 3 * 3)) ! nat inBoxIdx))
       [0, 1, 2, 3, 4, 5, 6, 7, 8]"

subsection \<open>Conflicts, in the words of the specification\<close>

text \<open>
  Two cells share a group when they have the same row, the same column or the same box. The
  cell of slot \<open>i\<close> is in conflict when its value is not 0 and another cell that shares a
  group with it has the same value.
\<close>

definition same_group :: "cell \<Rightarrow> cell \<Rightarrow> bool" where
  "same_group a b = (row a = row b \<or> column a = column b \<or> box_of a = box_of b)"

definition in_conflict :: "cell list \<Rightarrow> nat \<Rightarrow> bool" where
  "in_conflict cells i =
     (val (cells ! i) \<noteq> 0 \<and>
      list_ex (\<lambda>j. j \<noteq> i \<and> val (cells ! j) = val (cells ! i) \<and> same_group (cells ! i) (cells ! j))
        [0..<length cells])"

text \<open>The slot of one of the board's own cells.\<close>

definition own_index :: "cellobj \<Rightarrow> nat" where
  "own_index obj = (case obj of Own i \<Rightarrow> i | Fresh c \<Rightarrow> 0)"

section \<open>Auxiliary lemmas\<close>

lemma array_get_in_range:
  "0 \<le> idx \<Longrightarrow> idx < int (length cells) \<Longrightarrow> array_get cells idx = Some (Own (nat idx))"
  by (simp add: array_get_def)

lemma index_in_range:
  assumes "1 \<le> r" "r \<le> 9" "1 \<le> c" "c \<le> (9::int)"
  shows "0 \<le> calcCellIndexFromBoardPosition r c" "calcCellIndexFromBoardPosition r c < 81"
  using assms by (simp_all add: calcCellIndexFromBoardPosition_def)

lemma getCellAtPosition_in_range:
  assumes "length cells = 81" "1 \<le> r" "r \<le> 9" "1 \<le> c" "c \<le> 9"
  shows "getCellAtPosition cells r c copy =
         Some (if copy then Fresh (Cell_fromCell (cells ! nat (calcCellIndexFromBoardPosition r c)))
               else Own (nat (calcCellIndexFromBoardPosition r c)))"
  using assms index_in_range[of r c]
  by (simp add: getCellAtPosition_def array_get_in_range)

lemma Cell_fromCell_id [simp]: "Cell_fromCell c = c"
  by (simp add: Cell_fromCell_def)

lemma length_board_of_puzzle1: "length (board_of puzzle1) = 81"
  by code_simp

lemma for_each_append:
  "for_each body (xs @ ys) s =
     (case for_each body xs s of
        None \<Rightarrow> None
      | Some (s', go) \<Rightarrow> if go then for_each body ys s' else Some (s', False))"
  by (induction xs arbitrary: s) (auto split: option.splits prod.splits)

lemma for_each_map: "for_each body (map f xs) s = for_each (\<lambda>x. body (f x)) xs s"
  by (induction xs arbitrary: s) (auto split: option.splits prod.splits)

lemma for_each_cong:
  "(\<And>x s. x \<in> set xs \<Longrightarrow> f x s = g x s) \<Longrightarrow> for_each f xs s = for_each g xs s"
  by (induction xs arbitrary: s) (auto split: option.splits prod.splits)

lemma for_each_nested:
  "for_each (\<lambda>a. for_each (\<lambda>b. body a b) bs) as s =
   for_each (\<lambda>(a, b). body a b) (List.product as bs) s"
proof (induction as arbitrary: s)
  case Nil
  then show ?case by simp
next
  case (Cons a as)
  show ?case
    by (simp add: for_each_append for_each_map Cons.IH split: option.splits prod.splits)
qed

lemma upto_1_9: "[1..9] = [1, 2, 3, 4, 5, 6, 7, 8, 9::int]"
  by code_simp

lemma upto_0_8: "[0..8] = [0, 1, 2, 3, 4, 5, 6, 7, 8::int]"
  by code_simp

lemma walkCellsByRow_visits:
  assumes "length cells = 81"
  shows "walkCellsByRow cells cb s = map_option fst (walk_visits cb row_visits s)"
proof -
  have "for_each (\<lambda>(r, c). cb (getCellAtPosition cells r c False) r (c = 1)) (List.product [1..9] [1..9]) s
      = for_each (\<lambda>(r, c). cb (Some (Own (nat (calcCellIndexFromBoardPosition r c)))) r (c = 1)) (List.product [1..9] [1..9]) s"
    by (rule for_each_cong) (auto simp: getCellAtPosition_in_range[OF assms])
  then show ?thesis
    by (simp add: walkCellsByRow_def walk_visits_def row_visits_def for_each_nested for_each_map case_prod_unfold)
qed

lemma walkCellsByColumn_visits:
  assumes "length cells = 81"
  shows "walkCellsByColumn cells cb s = map_option fst (walk_visits cb column_visits s)"
proof -
  have "for_each (\<lambda>(c, r). cb (getCellAtPosition cells r c False) c (r = 1)) (List.product [1..9] [1..9]) s
      = for_each (\<lambda>(c, r). cb (Some (Own (nat (calcCellIndexFromBoardPosition r c)))) c (r = 1)) (List.product [1..9] [1..9]) s"
    by (rule for_each_cong) (auto simp: getCellAtPosition_in_range[OF assms])
  then show ?thesis
    by (simp add: walkCellsByColumn_def walk_visits_def column_visits_def for_each_nested for_each_map case_prod_unfold)
qed

lemma reset_cell_idem: "reset_cell (reset_cell c) = reset_cell c"
  by (simp add: reset_cell_def)

lemma row_visits_cover:
  assumes "j < 81"
  shows "j \<in> fst ` set row_visits"
proof -
  let ?r = "int (j div 9) + 1" and ?c = "int (j mod 9) + 1"
  have "(?r, ?c) \<in> set (List.product [1..9] [1..9])"
    using assms by auto
  moreover have "nat (calcCellIndexFromBoardPosition ?r ?c) = j"
    by (simp add: calcCellIndexFromBoardPosition_def nat_add_distrib nat_mult_distrib)
  ultimately have "(j, ?r, ?c = 1) \<in> set row_visits"
    unfolding row_visits_def set_map by (intro image_eqI[where x = "(?r, ?c)"]) simp_all
  then show ?thesis by (intro image_eqI[where x = "(j, ?r, ?c = 1)"]) simp_all
qed

lemma walk_visits_restart:
  "walk_visits restart_cb vs s =
     Some (fold (\<lambda>i s. if \<not> isFixed (s ! i) then s[i := (s ! i)\<lparr>val := 0\<rparr>] else s) (map fst vs) s, True)"
  by (induction vs arbitrary: s) (simp_all add: walk_visits_def restart_cb_def split: prod.splits)

lemma fold_reset_nth:
  "length (fold (\<lambda>i s. if \<not> isFixed (s ! i) then s[i := (s ! i)\<lparr>val := 0\<rparr>] else s) is s) = length s \<and>
   (\<forall>j<length s.
      fold (\<lambda>i s. if \<not> isFixed (s ! i) then s[i := (s ! i)\<lparr>val := 0\<rparr>] else s) is s ! j
        = (if j \<in> set is then reset_cell (s ! j) else s ! j))"
proof (induction "is" arbitrary: s)
  case Nil
  then show ?case by simp
next
  case (Cons i "is")
  let ?s1 = "if \<not> isFixed (s ! i) then s[i := (s ! i)\<lparr>val := 0\<rparr>] else s"
  have len: "length ?s1 = length s" by simp
  have nth: "\<forall>j<length s. ?s1 ! j = (if j = i then reset_cell (s ! j) else s ! j)"
    by (simp add: reset_cell_def nth_list_update)
  from Cons.IH[of ?s1] len nth show ?case
    by (auto simp: reset_cell_idem)
qed

lemma restart_eq:
  assumes "length cells = 81"
  shows "restart cells = Some (map reset_cell cells)"
proof -
  let ?f = "fold (\<lambda>i s. if \<not> isFixed (s ! i) then s[i := (s ! i)\<lparr>val := 0\<rparr>] else s) (map fst row_visits) cells"
  have "restart cells = map_option fst (walk_visits restart_cb row_visits cells)"
    by (simp add: restart_def walkCellsByRow_visits[OF assms])
  then have r: "restart cells = Some ?f"
    by (simp add: walk_visits_restart)
  have "length ?f = length cells" and "\<forall>j<length cells. ?f ! j = reset_cell (cells ! j)"
    using fold_reset_nth[of "map fst row_visits" cells] row_visits_cover assms by auto
  then have "?f = map reset_cell cells"
    by (intro nth_equalityI) simp_all
  with r show ?thesis by simp
qed

lemma reset_cell_fields:
  "row (reset_cell c) = row c" "column (reset_cell c) = column c" "isFixed (reset_cell c) = isFixed c"
  by (simp_all add: reset_cell_def)

lemma digit_value_range: "is_digit ch \<Longrightarrow> 0 \<le> digit_value ch \<and> digit_value ch \<le> 9"
  by (auto simp: is_digit_def digit_value_def)

lemma init_loop_digits:
  "\<forall>j. i \<le> j \<and> j < length s \<longrightarrow> is_digit (s ! j) \<Longrightarrow> length cells = i \<Longrightarrow>
   init_loop s i cells = Inr (cells @ map (\<lambda>j. new_cell j (s ! j)) [i..<length s])"
proof (induction s i cells rule: init_loop.induct)
  case (1 boardDef i cells)
  show ?case
  proof (cases "i < length boardDef")
    case False
    then show ?thesis by (simp add: init_loop.simps[of boardDef i cells])
  next
    case True
    have d: "is_digit (boardDef ! i)" using 1(2) True by simp
    let ?n = "digit_value (boardDef ! i)"
    have r: "0 \<le> ?n \<and> ?n \<le> 9" using d by (rule digit_value_range)
    have p: "parseInt (boardDef ! i) = Some ?n" using d by (simp add: parseInt_def)
    let ?cells' = "cells @ [new_cell i (boardDef ! i)]"
    have "init_loop boardDef (i + 1) ?cells'
          = Inr (?cells' @ map (\<lambda>j. new_cell j (boardDef ! j)) [i + 1..<length boardDef])"
      using 1(1)[OF True refl refl p] r 1(2,3)
      by (simp add: new_cell_def calcBoardPositionFromIndex_def)
    moreover have "init_loop boardDef i cells = init_loop boardDef (i + 1) ?cells'"
      using True p r 1(3)
      by (subst init_loop.simps) (simp add: new_cell_def calcBoardPositionFromIndex_def Let_def)
    ultimately show ?thesis using True by (simp add: upt_conv_Cons)
  qed
qed

lemma init_loop_nondigit:
  "\<exists>j. i \<le> j \<and> j < length s \<and> \<not> is_digit (s ! j) \<Longrightarrow> init_loop s i cells = Inl InvalidCellValue"
proof (induction s i cells rule: init_loop.induct)
  case (1 boardDef i cells)
  from 1(2) obtain j where j: "i \<le> j" "j < length boardDef" "\<not> is_digit (boardDef ! j)" by blast
  then have lt: "i < length boardDef" by simp
  show ?case
  proof (cases "is_digit (boardDef ! i)")
    case False
    then show ?thesis using lt
      by (subst init_loop.simps) (simp add: parseInt_def)
  next
    case True
    let ?n = "digit_value (boardDef ! i)"
    have r: "0 \<le> ?n \<and> ?n \<le> 9" using True by (rule digit_value_range)
    have p: "parseInt (boardDef ! i) = Some ?n" using True by (simp add: parseInt_def)
    have "j \<noteq> i" using True j by auto
    then have ex: "\<exists>j. i + 1 \<le> j \<and> j < length boardDef \<and> \<not> is_digit (boardDef ! j)"
      using j by (intro exI[of _ j]) simp
    show ?thesis
      using 1(1)[OF lt refl refl p _ ex] r lt p
      by (subst init_loop.simps) (simp add: Let_def)
  qed
qed

lemma Board_digits:
  assumes "length s = 81" "\<forall>ch\<in>set s. is_digit ch"
  shows "Board (JSString s) = Inr (map (\<lambda>j. new_cell j (s ! j)) [0..<81])"
proof -
  have "\<forall>j. 0 \<le> j \<and> j < length s \<longrightarrow> is_digit (s ! j)" using assms(2) by simp
  from init_loop_digits[OF this, of "[]"] assms(1) show ?thesis
    by (simp add: Board_def)
qed

lemma Board_nondigit:
  assumes "length s = 81" "\<exists>ch\<in>set s. \<not> is_digit ch"
  shows "Board (JSString s) = Inl InvalidCellValue"
proof -
  from assms(2) have "\<exists>j. 0 \<le> j \<and> j < length s \<and> \<not> is_digit (s ! j)"
    by (metis in_set_conv_nth le0)
  from init_loop_nondigit[OF this] assms(1) show ?thesis
    by (simp add: Board_def)
qed

lemma puzzle1_digits: "length puzzle1 = 81" "\<forall>ch\<in>set puzzle1. is_digit ch"
  by (simp_all add: puzzle1_def is_digit_def)

lemma Board_puzzle1: "Board (JSString puzzle1) = Inr (board_of puzzle1)"
  using Board_digits[OF puzzle1_digits] by (simp add: board_of_def)

lemma reachable_puzzle1: "reachable (board_of puzzle1)"
  using Board_puzzle1 by (rule reachable.constructed)

lemma well_formed_Board:
  assumes "Board d = Inr cells"
  shows "well_formed cells"
proof -
  from assms obtain s where s: "d = JSString s" "length s = 81"
    by (auto simp: Board_def split: jsvalue.splits if_splits)
  have "\<forall>ch\<in>set s. is_digit ch"
    using Board_nondigit[OF s(2)] assms s(1) by auto
  from Board_digits[OF s(2) this] assms s(1)
  have "cells = map (\<lambda>j. new_cell j (s ! j)) [0..<81]" by simp
  then show ?thesis by (simp add: well_formed_def new_cell_def)
qed

lemma setCellValue_result:
  assumes "setCellValue cells r c v = Some (ok, cells')"
  shows "\<exists>i<length cells. calcCellIndexFromBoardPosition r c = int i \<and>
           ok = (\<not> isFixed (cells ! i)) \<and>
           cells' = (if isFixed (cells ! i) then cells else cells[i := (cells ! i)\<lparr>val := v\<rparr>])"
proof -
  let ?k = "calcCellIndexFromBoardPosition r c"
  from assms have k: "0 \<le> ?k" "?k < int (length cells)"
    by (auto simp: setCellValue_def getCellAtPosition_def array_get_def split: if_splits option.splits)
  then have lt: "nat ?k < length cells" by simp
  have "ok = (\<not> isFixed (cells ! nat ?k)) \<and>
        cells' = (if isFixed (cells ! nat ?k) then cells else cells[nat ?k := (cells ! nat ?k)\<lparr>val := v\<rparr>])"
    using assms k lt
    by (auto simp: setCellValue_def getCellAtPosition_def array_get_def Let_def split: if_splits)
  with lt k show ?thesis by (intro exI[of _ "nat ?k"]) simp
qed

lemma well_formed_setCellValue:
  assumes "well_formed cells" "setCellValue cells r c v = Some (ok, cells')"
  shows "well_formed cells'"
proof -
  from setCellValue_result[OF assms(2)] obtain i where
    i: "i < length cells" "cells' = (if isFixed (cells ! i) then cells else cells[i := (cells ! i)\<lparr>val := v\<rparr>])"
    by blast
  show ?thesis
    using assms(1) i by (auto simp: well_formed_def nth_list_update)
qed

lemma well_formed_restart:
  assumes "well_formed cells" "restart cells = Some cells'"
  shows "well_formed cells'"
proof -
  have "length cells = 81" using assms(1) by (simp add: well_formed_def)
  from restart_eq[OF this] assms(2) have "cells' = map reset_cell cells" by simp
  then show ?thesis using assms(1) by (simp add: well_formed_def reset_cell_fields)
qed

lemma reachable_well_formed: "reachable cells \<Longrightarrow> well_formed cells"
  by (induction rule: reachable.induct)
     (auto intro: well_formed_Board well_formed_setCellValue well_formed_restart)

lemma reachable_length: "reachable cells \<Longrightarrow> length cells = 81"
  using reachable_well_formed by (simp add: well_formed_def)

lemma for_each_invariant:
  assumes "\<And>x s s' go. P s \<Longrightarrow> body x s = Some (s', go) \<Longrightarrow> P s'"
  shows "P s \<Longrightarrow> for_each body xs s = Some (s', go) \<Longrightarrow> P s'"
proof (induction xs arbitrary: s)
  case Nil
  then show ?case by simp
next
  case (Cons x xs)
  from Cons.prems(2) obtain s1 go1 where b: "body x s = Some (s1, go1)"
    by (auto split: option.splits)
  have P1: "P s1" using assms[OF Cons.prems(1) b] .
  show ?case
  proof (cases go1)
    case True
    with Cons.prems(2) b have "for_each body xs s1 = Some (s', go)" by simp
    from Cons.IH[OF P1 this] show ?thesis .
  next
    case False
    with Cons.prems(2) b have "s' = s1" by simp
    with P1 show ?thesis by simp
  qed
qed

lemma values_in_range_update:
  assumes "values_in_range cells" "0 \<le> v" "v \<le> 9"
  shows "values_in_range (cells[i := (cells ! i)\<lparr>val := v\<rparr>])"
proof -
  have "set (cells[i := (cells ! i)\<lparr>val := v\<rparr>]) \<subseteq> insert ((cells ! i)\<lparr>val := v\<rparr>) (set cells)"
    by (rule set_update_subset_insert)
  then show ?thesis
    using assms unfolding values_in_range_def list_all_iff by fastforce
qed

lemma values_in_range_restart_cb:
  assumes "values_in_range s" "restart_cb cell x n s = Some (s', go)"
  shows "values_in_range s'"
proof (cases cell)
  case None
  with assms(2) show ?thesis by (simp add: restart_cb_def)
next
  case (Some obj)
  show ?thesis
  proof (cases obj)
    case (Own i)
    with Some assms(2) have "s' = s \<or> s' = s[i := (s ! i)\<lparr>val := 0\<rparr>]"
      by (auto simp: restart_cb_def split: if_splits)
    then show ?thesis using assms(1) values_in_range_update[of s 0 i] by auto
  next
    case (Fresh c)
    with Some assms(2) have "s' = s"
      by (auto simp: restart_cb_def split: if_splits)
    then show ?thesis using assms(1) by simp
  qed
qed

lemma values_in_range_restart:
  assumes "values_in_range cells" "restart cells = Some cells'"
  shows "values_in_range cells'"
proof -
  from assms(2) obtain go where
    w: "for_each (\<lambda>r. for_each (\<lambda>c. restart_cb (getCellAtPosition cells r c False) r (c = 1)) [1..9]) [1..9] cells
          = Some (cells', go)"
    by (auto simp: restart_def walkCellsByRow_def)
  show ?thesis
  proof (rule for_each_invariant[where P = values_in_range, OF _ assms(1) w])
    fix r :: int and s s' go
    assume "values_in_range s"
      and "for_each (\<lambda>c. restart_cb (getCellAtPosition cells r c False) r (c = 1)) [1..9] s = Some (s', go)"
    then show "values_in_range s'"
      by (rule for_each_invariant[where P = values_in_range, rotated 1]) (rule values_in_range_restart_cb)
  qed
qed

lemma values_in_range_Board:
  assumes "Board d = Inr cells"
  shows "values_in_range cells"
proof -
  from assms obtain s where s: "d = JSString s" "length s = 81"
    by (auto simp: Board_def split: jsvalue.splits if_splits)
  have dg: "\<forall>ch\<in>set s. is_digit ch"
    using Board_nondigit[OF s(2)] assms s(1) by auto
  from Board_digits[OF s(2) this] assms s(1)
  have "cells = map (\<lambda>j. new_cell j (s ! j)) [0..<81]" by simp
  moreover have "\<forall>j<81. 0 \<le> digit_value (s ! j) \<and> digit_value (s ! j) \<le> 9"
    using dg s(2) digit_value_range by simp
  ultimately show ?thesis
    by (simp add: values_in_range_def list_all_iff new_cell_def)
qed

lemma setCellValue_puzzle1: "setCellValue (board_of puzzle1) 1 1 5 = Some (True, puzzle1_moved)"
  by code_simp

lemma restart_puzzle1: "restart (board_of puzzle1) = Some (board_of puzzle1)"
  by code_simp

lemma reachable_puzzle1_moved: "reachable puzzle1_moved"
  using reachable_puzzle1 setCellValue_puzzle1 by (rule reachable.after_setCellValue)

lemma walkCellsByBox_visits:
  assumes "length cells = 81"
  shows "walkCellsByBox cells cb s = map_option fst (walk_visits cb box_visits s)"
proof -
  have "for_each (\<lambda>(b, k). cb (array_get cells (cellIndices ((b div 3) * 27 + (b mod 3 * 3)) ! nat k)) (b + 1) (k = 0))
          (List.product [0..8] [0..8]) s
      = for_each (\<lambda>(b, k). cb (Some (Own (nat (cellIndices ((b div 3) * 27 + (b mod 3 * 3)) ! nat k)))) (b + 1) (k = 0))
          (List.product [0..8] [0..8]) s"
    by (rule for_each_cong) (auto simp: upto_0_8 cellIndices_def array_get_in_range assms)
  then show ?thesis
    by (simp add: walkCellsByBox_def walk_visits_def box_visits_def for_each_nested for_each_map case_prod_unfold Let_def)
qed

lemma walk_visits_record:
  "walk_visits record_cb vs t = Some (t @ map (\<lambda>(i, x, n). (Some (Own i), x, n)) vs, True)"
  by (induction vs arbitrary: t) (simp_all add: walk_visits_def record_cb_def split: prod.splits)

lemma upto_1_3: "[1..3] = [1, 2, 3::int]"
  by code_simp

lemma box_trace_eq:
  assumes "length cells = 81"
  shows "box_trace cells = map (\<lambda>(i, x, n). (Some (Own i), x, n)) box_visits"
  by (simp add: box_trace_def box_positions_def box_visits_def upto_1_9 upto_0_8 upto_1_3 cellIndices_def
        getCellAtPosition_in_range[OF assms] calcCellIndexFromBoardPosition_def)

lemma box_visits_props:
  "length box_visits = 81" "distinct (map fst box_visits)"
  "list_all (\<lambda>b. length (filter (\<lambda>v. fst (snd v) = b) box_visits) = 9) [1..9]"
  by (simp_all add: box_visits_def upto_1_9 upto_0_8 cellIndices_def)

lemma hasWon_solved_example:
  "hasWon (board_of puzzle_solved) = Some True \<and> solved (board_of puzzle_solved)"
  by code_simp

lemma getCell_is_a_copy:
  assumes "getCell cells r c = Some obj"
  shows "snd (assign_value obj v cells) = cells"
  using assms by (auto simp: getCell_def getCellAtPosition_def split: option.splits)

lemma getConflicts_cb_same_group:
  "getConflicts_cb cells (Some (Own i)) x False (conf, Some obj) = Some ((conf, Some (bucket_add cells obj i)), True)"
  by (simp add: getConflicts_cb_def bucket_add_def Let_def split: option.splits)

lemma getConflicts_cb_new_group:
  "getConflicts_cb cells (Some (Own i)) x True (conf, cwv) = Some ((flush cwv conf, Some (bucket_add cells [] i)), True)"
  by (simp add: getConflicts_cb_def bucket_add_def flush_def Let_def split: option.splits)

lemma add_conflicts_fold_append:
  "fold (\<lambda>(v, cs) conflicts. if length cs > 1 then conflicts @ cs else conflicts) ps (a @ b)
   = a @ fold (\<lambda>(v, cs) conflicts. if length cs > 1 then conflicts @ cs else conflicts) ps b"
  by (induction ps arbitrary: b) (auto split: prod.splits)

lemma add_conflicts_append: "add_conflicts obj conf = conf @ add_conflicts obj []"
  using add_conflicts_fold_append[of "own_properties obj" conf "[]"]
  by (simp add: add_conflicts_def)

lemma group_rest:
  assumes "b0 \<notin> set bs"
  shows "for_each (\<lambda>b. getConflicts_cb cells (Some (Own (f b))) x (b = b0)) bs (conf, Some obj)
         = Some ((conf, Some (fold (\<lambda>i obj. bucket_add cells obj i) (map f bs) obj)), True)"
  using assms by (induction bs arbitrary: obj) (auto simp: getConflicts_cb_same_group)

lemma group_whole:
  assumes "b0 \<notin> set bs"
  shows "for_each (\<lambda>b. getConflicts_cb cells (Some (Own (f b))) x (b = b0)) (b0 # bs) (conf, cwv)
         = Some ((flush cwv conf, Some (group_buckets cells (map f (b0 # bs)))), True)"
  using group_rest[OF assms] by (simp add: getConflicts_cb_new_group group_buckets_def)

lemma groups_abstract:
  assumes body: "\<And>a conf cwv. body a (conf, cwv) = Some ((flush cwv conf, Some (B a)), True)"
    and "as \<noteq> []"
  shows "for_each body as (conf, cwv)
         = Some ((flush cwv conf @ concat (map (\<lambda>a. add_conflicts (B a) []) (butlast as)), Some (B (last as))), True)"
  using assms(2)
proof (induction as arbitrary: conf cwv)
  case Nil
  then show ?case by simp
next
  case (Cons a as)
  show ?case
  proof (cases "as = []")
    case True
    then show ?thesis by (simp add: body)
  next
    case False
    have "flush (Some (B a)) (flush cwv conf) = flush cwv conf @ add_conflicts (B a) []"
      using add_conflicts_append[of _ "flush cwv conf"] by (simp add: flush_def)
    with Cons.IH[OF False] False show ?thesis
      by (simp add: body)
  qed
qed

lemma groups_all:
  assumes "b0 \<notin> set bs" "as \<noteq> []"
  shows "for_each (\<lambda>a. for_each (\<lambda>b. getConflicts_cb cells (Some (Own (f a b))) (x a) (b = b0)) (b0 # bs)) as (conf, cwv)
         = Some ((flush cwv conf @ concat (map (\<lambda>a. group_conflicts cells (map (f a) (b0 # bs))) (butlast as)),
                  Some (group_buckets cells (map (f (last as)) (b0 # bs)))), True)"
  unfolding group_conflicts_def
  by (rule groups_abstract[where B = "\<lambda>a. group_buckets cells (map (f a) (b0 # bs))", OF group_whole[OF assms(1)] assms(2)])

lemma flush_None: "flush None conf = conf"
  by (simp add: flush_def)

lemma getConflicts_check_grouped:
  assumes w: "\<And>s. walkFun (getConflicts_cb cells) s =
             map_option fst (for_each (\<lambda>a. for_each (\<lambda>b. getConflicts_cb cells (Some (Own (f a b))) (x a) (b = b0)) (b0 # bs)) as s)"
    and "b0 \<notin> set bs" "as \<noteq> []"
  shows "getConflicts_check cells walkFun conf
         = Some (conf @ concat (map (\<lambda>a. group_conflicts cells (map (f a) (b0 # bs))) as))"
proof -
  let ?G = "\<lambda>a. group_conflicts cells (map (f a) (b0 # bs))"
  from assms(3) obtain as' a' where as: "as = as' @ [a']"
    by (cases as rule: rev_cases) auto
  have "walkFun (getConflicts_cb cells) (conf, None)
        = Some (conf @ concat (map ?G (butlast as)), Some (group_buckets cells (map (f (last as)) (b0 # bs))))"
    by (simp only: w groups_all[OF assms(2,3)] flush_None option.map fst_conv)
  then have "getConflicts_check cells walkFun conf
        = Some (add_conflicts (group_buckets cells (map (f a') (b0 # bs))) (conf @ concat (map ?G as')))"
    by (simp only: getConflicts_check_def as butlast_snoc last_snoc option.case prod.case)
  also have "\<dots> = Some ((conf @ concat (map ?G as')) @ ?G a')"
    using add_conflicts_append[of "group_buckets cells (map (f a') (b0 # bs))" "conf @ concat (map ?G as')"]
    by (simp only: group_conflicts_def)
  also have "\<dots> = Some (conf @ concat (map ?G as))"
    by (simp only: as map_append concat_append list.map concat.simps append_Nil2 append_assoc)
  finally show ?thesis .
qed

lemma length_gt1_other:
  assumes "distinct xs" "x \<in> set xs"
  shows "(1 < length xs) = (\<exists>y\<in>set xs. y \<noteq> x)"
proof
  assume "1 < length xs"
  then obtain a b rest where xs: "xs = a # b # rest"
    by (cases xs; cases "tl xs") auto
  with assms(1) have "a \<noteq> b" by simp
  then have "a \<noteq> x \<or> b \<noteq> x" by auto
  with xs show "\<exists>y\<in>set xs. y \<noteq> x" by auto
next
  assume "\<exists>y\<in>set xs. y \<noteq> x"
  then obtain y where y: "y \<in> set xs" "y \<noteq> x" by blast
  have "card {x, y} \<le> card (set xs)"
    using assms(2) y(1) by (intro card_mono) auto
  then show "1 < length xs"
    using y(2) distinct_card[OF assms(1)] by simp
qed

lemma group_buckets_snoc:
  "group_buckets cells (g @ [i]) = bucket_add cells (group_buckets cells g) i"
  by (simp add: group_buckets_def)

lemma group_buckets_inv:
  "distinct (map fst (group_buckets cells g)) \<and>
   (\<forall>v. map_of (group_buckets cells g) v =
        (if v \<noteq> 0 \<and> v \<in> (\<lambda>i. val (cells ! i)) ` set g
         then Some (map Own (filter (\<lambda>i. val (cells ! i) = v) g)) else None))"
proof (induction g rule: rev_induct)
  case Nil
  then show ?case by (simp add: group_buckets_def)
next
  case (snoc i g)
  let ?obj = "group_buckets cells g"
  let ?v = "val (cells ! i)"
  from snoc have d: "distinct (map fst ?obj)" and
    m: "\<And>v. map_of ?obj v =
        (if v \<noteq> 0 \<and> v \<in> (\<lambda>i. val (cells ! i)) ` set g
         then Some (map Own (filter (\<lambda>i. val (cells ! i) = v) g)) else None)"
    by blast+
  show ?case
  proof (cases "?v = 0")
    case True
    then have "bucket_add cells ?obj i = ?obj" by (simp add: bucket_add_def)
    with d m True show ?thesis
      by (auto simp: group_buckets_snoc)
  next
    case False
    show ?thesis
    proof (cases "?v \<in> (\<lambda>i. val (cells ! i)) ` set g")
      case True
      with False m[of ?v] have
        "bucket_add cells ?obj i = AList.update ?v (map Own (filter (\<lambda>j. val (cells ! j) = ?v) g) @ [Own i]) ?obj"
        by (simp add: bucket_add_def Let_def)
      with d m False True show ?thesis
        by (auto simp: group_buckets_snoc distinct_update update_conv')
    next
      case notin: False
      with False m[of ?v] have
        "bucket_add cells ?obj i = AList.update ?v [Own i] ?obj"
        by (simp add: bucket_add_def Let_def)
      moreover have "filter (\<lambda>j. val (cells ! j) = ?v) g = []"
        using notin by (auto simp: filter_empty_conv image_iff)
      ultimately show ?thesis using d m False notin
        by (auto simp: group_buckets_snoc distinct_update update_conv')
    qed
  qed
qed

lemma set_own_properties: "set (own_properties obj) = set obj"
  by (auto simp: own_properties_def)

lemma set_add_conflicts_fold:
  "set (fold (\<lambda>(v, cs) conflicts. if length cs > 1 then conflicts @ cs else conflicts) ps conf)
   = set conf \<union> (\<Union>p\<in>set ps. if length (snd p) > 1 then set (snd p) else {})"
  by (induction ps arbitrary: conf) (auto split: prod.splits if_splits)

lemma set_add_conflicts:
  "set (add_conflicts obj []) = (\<Union>p\<in>set obj. if length (snd p) > 1 then set (snd p) else {})"
  unfolding add_conflicts_def set_add_conflicts_fold set_own_properties by simp

lemma set_group_conflicts:
  assumes "distinct g"
  shows "set (group_conflicts cells g)
         = Own ` {i \<in> set g. val (cells ! i) \<noteq> 0 \<and> (\<exists>j\<in>set g. j \<noteq> i \<and> val (cells ! j) = val (cells ! i))}"
    (is "?L = Own ` ?R")
proof -
  let ?obj = "group_buckets cells g"
  have d: "distinct (map fst ?obj)" and
    m: "\<And>v. map_of ?obj v =
        (if v \<noteq> 0 \<and> v \<in> (\<lambda>i. val (cells ! i)) ` set g
         then Some (map Own (filter (\<lambda>i. val (cells ! i) = v) g)) else None)"
    using group_buckets_inv[of cells g] by blast+
  have other: "(1 < length (filter (\<lambda>j. val (cells ! j) = val (cells ! i)) g))
      = (\<exists>j\<in>set g. j \<noteq> i \<and> val (cells ! j) = val (cells ! i))" if "i \<in> set g" for i
  proof -
    let ?xs = "filter (\<lambda>j. val (cells ! j) = val (cells ! i)) g"
    have "distinct ?xs" "i \<in> set ?xs" using assms that by simp_all
    from length_gt1_other[OF this] show ?thesis by auto
  qed
  have L: "?L = (\<Union>p\<in>set ?obj. if length (snd p) > 1 then set (snd p) else {})"
    by (simp add: group_conflicts_def set_add_conflicts)
  show ?thesis
  proof (intro set_eqI iffI)
    fix c assume "c \<in> ?L"
    then obtain v cs where p: "(v, cs) \<in> set ?obj" "length cs > 1" "c \<in> set cs"
      unfolding L by (auto split: if_splits)
    from p(1) d have "map_of ?obj v = Some cs" by simp
    with m[of v] have v: "v \<noteq> 0" and cs: "cs = map Own (filter (\<lambda>i. val (cells ! i) = v) g)"
      by (auto split: if_splits)
    from p(3) cs obtain i where i: "c = Own i" "i \<in> set g" "val (cells ! i) = v" by auto
    from p(2) cs i have "1 < length (filter (\<lambda>j. val (cells ! j) = val (cells ! i)) g)" by simp
    with other[OF i(2)] i v show "c \<in> Own ` ?R" by auto
  next
    fix c assume "c \<in> Own ` ?R"
    then obtain i where i: "c = Own i" "i \<in> set g" "val (cells ! i) \<noteq> 0"
      "\<exists>j\<in>set g. j \<noteq> i \<and> val (cells ! j) = val (cells ! i)" by auto
    let ?cs = "map Own (filter (\<lambda>j. val (cells ! j) = val (cells ! i)) g)"
    have "map_of ?obj (val (cells ! i)) = Some ?cs"
      using m[of "val (cells ! i)"] i(2,3) by auto
    then have "(val (cells ! i), ?cs) \<in> set ?obj" by (rule map_of_SomeD)
    moreover have "1 < length ?cs" using other[OF i(2)] i(4) by simp
    moreover have "c \<in> set ?cs" using i(1,2) by simp
    ultimately show "c \<in> ?L" unfolding L by force
  qed
qed

lemma walkCellsByRow_grouped:
  assumes "length cells = 81"
  shows "walkCellsByRow cells cb s =
         map_option fst (for_each (\<lambda>r. for_each (\<lambda>c. cb (Some (Own (nat (calcCellIndexFromBoardPosition r c)))) r (c = 1))
                                      [1, 2, 3, 4, 5, 6, 7, 8, 9]) [1, 2, 3, 4, 5, 6, 7, 8, 9] s)"
  unfolding walkCellsByRow_def upto_1_9
  apply (rule arg_cong[where f = "map_option fst"])
  apply (rule for_each_cong)
  apply (rule for_each_cong)
  subgoal for a s b s'
    using getCellAtPosition_in_range[OF assms, of a b False] by auto
  done

lemma walkCellsByColumn_grouped:
  assumes "length cells = 81"
  shows "walkCellsByColumn cells cb s =
         map_option fst (for_each (\<lambda>c. for_each (\<lambda>r. cb (Some (Own (nat (calcCellIndexFromBoardPosition r c)))) c (r = 1))
                                      [1, 2, 3, 4, 5, 6, 7, 8, 9]) [1, 2, 3, 4, 5, 6, 7, 8, 9] s)"
  unfolding walkCellsByColumn_def upto_1_9
  apply (rule arg_cong[where f = "map_option fst"])
  apply (rule for_each_cong)
  apply (rule for_each_cong)
  subgoal for a s b s'
    using getCellAtPosition_in_range[OF assms, of b a False] by auto
  done

lemma walkCellsByBox_grouped:
  assumes "length cells = 81"
  shows "walkCellsByBox cells cb s =
         map_option fst (for_each (\<lambda>a. for_each (\<lambda>k. cb (Some (Own (nat (cellIndices ((a div 3) * 27 + (a mod 3 * 3)) ! nat k)))) (a + 1) (k = 0))
                                      [0, 1, 2, 3, 4, 5, 6, 7, 8]) [0, 1, 2, 3, 4, 5, 6, 7, 8] s)"
  unfolding walkCellsByBox_def upto_0_8 Let_def
  apply (rule arg_cong[where f = "map_option fst"])
  apply (rule for_each_cong)
  apply (rule for_each_cong)
  apply (auto simp: cellIndices_def array_get_in_range assms)
  done

lemma check_rows:
  assumes "length cells = 81"
  shows "getConflicts_check cells (walkCellsByRow cells) conf
         = Some (conf @ concat (map (\<lambda>r. group_conflicts cells (row_group r)) [1, 2, 3, 4, 5, 6, 7, 8, 9]))"
  unfolding row_group_def
  by (rule getConflicts_check_grouped[where walkFun = "walkCellsByRow cells"
        and f = "\<lambda>r c. nat (calcCellIndexFromBoardPosition r c)" and x = "\<lambda>r. r" and ?b0.0 = 1
        and bs = "[2, 3, 4, 5, 6, 7, 8, 9]" and as = "[1, 2, 3, 4, 5, 6, 7, 8, 9]",
        OF walkCellsByRow_grouped[OF assms, of "getConflicts_cb cells"]]) simp_all

lemma check_columns:
  assumes "length cells = 81"
  shows "getConflicts_check cells (walkCellsByColumn cells) conf
         = Some (conf @ concat (map (\<lambda>c. group_conflicts cells (column_group c)) [1, 2, 3, 4, 5, 6, 7, 8, 9]))"
  unfolding column_group_def
  by (rule getConflicts_check_grouped[where walkFun = "walkCellsByColumn cells"
        and f = "\<lambda>c r. nat (calcCellIndexFromBoardPosition r c)" and x = "\<lambda>c. c" and ?b0.0 = 1
        and bs = "[2, 3, 4, 5, 6, 7, 8, 9]" and as = "[1, 2, 3, 4, 5, 6, 7, 8, 9]",
        OF walkCellsByColumn_grouped[OF assms, of "getConflicts_cb cells"]]) simp_all

lemma check_boxes:
  assumes "length cells = 81"
  shows "getConflicts_check cells (walkCellsByBox cells) conf
         = Some (conf @ concat (map (\<lambda>a. group_conflicts cells (box_group a)) [0, 1, 2, 3, 4, 5, 6, 7, 8]))"
  unfolding box_group_def
  by (rule getConflicts_check_grouped[where walkFun = "walkCellsByBox cells"
        and f = "\<lambda>a k. nat (cellIndices ((a div 3) * 27 + (a mod 3 * 3)) ! nat k)" and x = "\<lambda>a. a + 1" and ?b0.0 = 0
        and bs = "[1, 2, 3, 4, 5, 6, 7, 8]" and as = "[0, 1, 2, 3, 4, 5, 6, 7, 8]",
        OF walkCellsByBox_grouped[OF assms, of "getConflicts_cb cells"]]) simp_all

lemma row_group_table:
  "list_all (\<lambda>r. list_all (\<lambda>i. (i \<in> set (row_group r)) = (int (i div 9) + 1 = r)) [0..<81] \<and>
                  list_all (\<lambda>j. j < 81) (row_group r) \<and> distinct (row_group r)) [1..9]"
  by code_simp

lemma column_group_table:
  "list_all (\<lambda>c. list_all (\<lambda>i. (i \<in> set (column_group c)) = (int (i mod 9) + 1 = c)) [0..<81] \<and>
                  list_all (\<lambda>j. j < 81) (column_group c) \<and> distinct (column_group c)) [1..9]"
  by code_simp

lemma box_group_table:
  "list_all (\<lambda>a. list_all (\<lambda>i. (i \<in> set (box_group a)) = (3 * (int (i div 9) div 3) + int (i mod 9) div 3 = a)) [0..<81] \<and>
                  list_all (\<lambda>j. j < 81) (box_group a) \<and> distinct (box_group a)) [0..8]"
  by code_simp

lemma row_group_member:
  assumes "1 \<le> r" "r \<le> 9"
  shows "(i \<in> set (row_group r)) = (i < 81 \<and> int (i div 9) + 1 = r)"
    and "distinct (row_group r)"
proof -
  from assms have r: "r \<in> set [1..9]" by simp
  with row_group_table have
    t: "\<forall>i\<in>set [0..<81]. (i \<in> set (row_group r)) = (int (i div 9) + 1 = r)"
    and b: "\<forall>j\<in>set (row_group r). j < 81" and d: "distinct (row_group r)"
    unfolding list_all_iff by blast+
  show "distinct (row_group r)" by (rule d)
  show "(i \<in> set (row_group r)) = (i < 81 \<and> int (i div 9) + 1 = r)"
    using t b by (cases "i < 81") auto
qed

lemma column_group_member:
  assumes "1 \<le> c" "c \<le> 9"
  shows "(i \<in> set (column_group c)) = (i < 81 \<and> int (i mod 9) + 1 = c)"
    and "distinct (column_group c)"
proof -
  from assms have c: "c \<in> set [1..9]" by simp
  with column_group_table have
    t: "\<forall>i\<in>set [0..<81]. (i \<in> set (column_group c)) = (int (i mod 9) + 1 = c)"
    and b: "\<forall>j\<in>set (column_group c). j < 81" and d: "distinct (column_group c)"
    unfolding list_all_iff by blast+
  show "distinct (column_group c)" by (rule d)
  show "(i \<in> set (column_group c)) = (i < 81 \<and> int (i mod 9) + 1 = c)"
    using t b by (cases "i < 81") auto
qed

lemma box_group_member:
  assumes "0 \<le> a" "a \<le> 8"
  shows "(i \<in> set (box_group a)) = (i < 81 \<and> 3 * (int (i div 9) div 3) + int (i mod 9) div 3 = a)"
    and "distinct (box_group a)"
proof -
  from assms have a: "a \<in> set [0..8]" by simp
  with box_group_table have
    t: "\<forall>i\<in>set [0..<81]. (i \<in> set (box_group a)) = (3 * (int (i div 9) div 3) + int (i mod 9) div 3 = a)"
    and b: "\<forall>j\<in>set (box_group a). j < 81" and d: "distinct (box_group a)"
    unfolding list_all_iff by blast+
  show "distinct (box_group a)" by (rule d)
  show "(i \<in> set (box_group a)) = (i < 81 \<and> 3 * (int (i div 9) div 3) + int (i mod 9) div 3 = a)"
    using t b by (cases "i < 81") auto
qed

lemma conflicts_of_kind:
  assumes mem: "\<And>a i. a \<in> set as \<Longrightarrow> (i \<in> set (G a)) = (i < 81 \<and> key i = a)"
    and dist: "\<And>a. a \<in> set as \<Longrightarrow> distinct (G a)"
    and cover: "\<And>i. i < (81::nat) \<Longrightarrow> key i \<in> set as"
  shows "set (concat (map (\<lambda>a. group_conflicts cells (G a)) as))
         = Own ` {i. i < 81 \<and> val (cells ! i) \<noteq> 0 \<and>
                     (\<exists>j<81. j \<noteq> i \<and> val (cells ! j) = val (cells ! i) \<and> key j = key i)}"
    (is "?L = Own ` ?R")
proof (intro set_eqI iffI)
  fix c assume "c \<in> ?L"
  then obtain a where a: "a \<in> set as" "c \<in> set (group_conflicts cells (G a))" by auto
  from a(2) set_group_conflicts[OF dist[OF a(1)], of cells]
  obtain i j where i: "c = Own i" "i \<in> set (G a)" "val (cells ! i) \<noteq> 0"
    "j \<in> set (G a)" "j \<noteq> i" "val (cells ! j) = val (cells ! i)" by auto
  from i(2,4) mem[OF a(1)] have "i < 81" "j < 81" "key i = a" "key j = a" by auto
  with i show "c \<in> Own ` ?R" by auto
next
  fix c assume "c \<in> Own ` ?R"
  then obtain i j where i: "c = Own i" "i < 81" "val (cells ! i) \<noteq> 0"
    "j < 81" "j \<noteq> i" "val (cells ! j) = val (cells ! i)" "key j = key i" by auto
  let ?a = "key i"
  have a: "?a \<in> set as" using cover[OF i(2)] .
  have "i \<in> set (G ?a)" "j \<in> set (G ?a)" using mem[OF a] i(2,4,7) by auto
  with i(3,5,6) have "Own i \<in> set (group_conflicts cells (G ?a))"
    unfolding set_group_conflicts[OF dist[OF a]] by auto
  with a i(1) show "c \<in> ?L" by auto
qed

lemma lex_9:
  assumes "b < 9" "d < (9::nat)"
  shows "(a < c \<or> (a = c \<and> b \<le> d)) = (9 * a + b \<le> 9 * c + d)"
    and "(a < c \<or> (a = c \<and> b < d)) = (9 * a + b < 9 * c + d)"
  using assms by arith+

lemma lex_div_mod:
  "(i div 9 < j div 9 \<or> (i div 9 = j div 9 \<and> i mod 9 \<le> j mod 9)) = (i \<le> (j::nat))"
  using lex_9(1)[of "i mod 9" "j mod 9" "i div 9" "j div 9"] by simp

lemma lex_div_mod_strict:
  "(i div 9 < j div 9 \<or> (i div 9 = j div 9 \<and> i mod 9 < j mod 9)) = (i < (j::nat))"
  using lex_9(2)[of "i mod 9" "j mod 9" "i div 9" "j div 9"] by simp

lemma set_unique_fold:
  "set (fold (\<lambda>elem result. if elem \<notin> set result then result @ [elem] else result) xs acc) = set acc \<union> set xs"
  by (induction xs arbitrary: acc) auto

lemma distinct_unique_fold:
  "distinct acc \<Longrightarrow> distinct (fold (\<lambda>elem result. if elem \<notin> set result then result @ [elem] else result) xs acc)"
  by (induction xs arbitrary: acc) auto

lemma set_unique: "set (unique xs) = set xs"
  by (simp add: unique_def set_unique_fold)

lemma distinct_unique: "distinct (unique xs)"
  by (simp add: unique_def distinct_unique_fold)

lemma set_insert_sorted: "set (insert_sorted cmp x ys) = insert x (set ys)"
  by (induction ys) auto

lemma distinct_insert_sorted: "distinct (insert_sorted cmp x ys) = (x \<notin> set ys \<and> distinct ys)"
  by (induction ys) (auto simp: set_insert_sorted)

lemma array_sort_Cons: "array_sort cmp (x # xs) = insert_sorted cmp x (array_sort cmp xs)"
  by (simp add: array_sort_def)

lemma set_array_sort: "set (array_sort cmp xs) = set xs"
  by (induction xs) (simp_all add: array_sort_Cons set_insert_sorted, simp add: array_sort_def)

lemma distinct_array_sort: "distinct xs \<Longrightarrow> distinct (array_sort cmp xs)"
  by (induction xs) (simp_all add: array_sort_Cons distinct_insert_sorted set_array_sort, simp add: array_sort_def)

lemma sorted_insert_sorted:
  fixes k :: "'a \<Rightarrow> nat"
  assumes "\<forall>a\<in>insert x (set ys). \<forall>b\<in>insert x (set ys). (cmp a b \<le> 0) = (k a \<le> k b)"
    and "sorted (map k ys)"
  shows "sorted (map k (insert_sorted cmp x ys))"
  using assms
proof (induction ys)
  case Nil
  then show ?case by simp
next
  case (Cons y ys)
  show ?case
  proof (cases "cmp x y \<le> 0")
    case True
    with Cons.prems have "k x \<le> k y" by simp
    with Cons.prems(2) True show ?thesis by auto
  next
    case False
    with Cons.prems(1) have yx: "k y \<le> k x" by auto
    have "sorted (map k (insert_sorted cmp x ys))"
      using Cons.prems by (intro Cons.IH) auto
    with yx Cons.prems(2) False show ?thesis
      by (auto simp: set_insert_sorted)
  qed
qed

lemma sorted_array_sort:
  fixes k :: "'a \<Rightarrow> nat"
  assumes "\<forall>a\<in>set xs. \<forall>b\<in>set xs. (cmp a b \<le> 0) = (k a \<le> k b)"
  shows "sorted (map k (array_sort cmp xs))"
  using assms
proof (induction xs)
  case Nil
  then show ?case by (simp add: array_sort_def)
next
  case (Cons x xs)
  have "sorted (map k (array_sort cmp xs))" using Cons by simp
  then show ?case
    unfolding array_sort_Cons
    using Cons.prems by (intro sorted_insert_sorted) (simp_all add: set_array_sort)
qed

lemma set_1_9: "set [1, 2, 3, 4, 5, 6, 7, 8, 9::int] = {1..9}"
  unfolding upto_1_9[symmetric] by simp

lemma set_0_8: "set [0, 1, 2, 3, 4, 5, 6, 7, 8::int] = {0..8}"
  unfolding upto_0_8[symmetric] by simp

lemma box_of_well_formed:
  assumes "well_formed cells" "i < 81"
  shows "row (cells ! i) = int (i div 9) + 1" "column (cells ! i) = int (i mod 9) + 1"
    "box_of (cells ! i) = 3 * (int (i div 9) div 3) + int (i mod 9) div 3 + 1"
  using assms by (simp_all add: well_formed_def box_of_def)

lemma three_keys_commute:
  "(a + 1 = b + 1 \<or> c + 1 = d + 1 \<or> e + 1 = f + 1) = (b + 1 = a + 1 \<or> d + 1 = c + 1 \<or> f = (e::int))"
  by auto

lemma same_group_well_formed:
  assumes "well_formed cells" "i < 81" "j < 81"
  shows "same_group (cells ! i) (cells ! j) =
        (int (j div 9) + 1 = int (i div 9) + 1 \<or> int (j mod 9) + 1 = int (i mod 9) + 1 \<or>
         3 * (int (j div 9) div 3) + int (j mod 9) div 3 = 3 * (int (i div 9) div 3) + int (i mod 9) div 3)"
    (is "?L = ?R")
proof -
  have "?L = (int (i div 9) + 1 = int (j div 9) + 1 \<or> int (i mod 9) + 1 = int (j mod 9) + 1 \<or>
         3 * (int (i div 9) div 3) + int (i mod 9) div 3 + 1 = 3 * (int (j div 9) div 3) + int (j mod 9) div 3 + 1)"
    by (simp only: same_group_def box_of_well_formed[OF assms(1,2)] box_of_well_formed[OF assms(1,3)])
  also have "\<dots> = ?R" by (rule three_keys_commute)
  finally show ?thesis .
qed

lemma in_conflict_well_formed:
  assumes "well_formed cells" "i < 81"
  shows "in_conflict cells i =
         (val (cells ! i) \<noteq> 0 \<and>
          (\<exists>j<81. j \<noteq> i \<and> val (cells ! j) = val (cells ! i) \<and>
             (int (j div 9) + 1 = int (i div 9) + 1 \<or> int (j mod 9) + 1 = int (i mod 9) + 1 \<or>
              3 * (int (j div 9) div 3) + int (j mod 9) div 3 = 3 * (int (i div 9) div 3) + int (i mod 9) div 3)))"
    (is "?L = (?V \<and> (\<exists>j<81. ?P j))")
proof -
  have len: "length cells = 81" using assms(1) by (simp add: well_formed_def)
  have L: "?L = (?V \<and> (\<exists>j<81. j \<noteq> i \<and> val (cells ! j) = val (cells ! i) \<and> same_group (cells ! i) (cells ! j)))"
    unfolding in_conflict_def list_ex_iff len by (simp add: Bex_def)
  show ?thesis
  proof
    assume ?L
    with L obtain j where j: "j < 81" "j \<noteq> i" "val (cells ! j) = val (cells ! i)"
      "same_group (cells ! i) (cells ! j)" and v: ?V by blast
    from j(4) same_group_well_formed[OF assms j(1)] j(1,2,3) have "j < 81 \<and> ?P j" by simp
    with v show "?V \<and> (\<exists>j<81. ?P j)" by blast
  next
    assume R: "?V \<and> (\<exists>j<81. ?P j)"
    then obtain j where j: "j < 81" "?P j" by blast
    with same_group_well_formed[OF assms j(1)] have "same_group (cells ! i) (cells ! j)" by simp
    with j R show ?L unfolding L by blast
  qed
qed

lemma box_key_range:
  assumes "i < (81::nat)"
  shows "0 \<le> 3 * (int (i div 9) div 3) + int (i mod 9) div 3"
    and "3 * (int (i div 9) div 3) + int (i mod 9) div 3 \<le> 8"
proof -
  have a: "i div 9 div 3 \<le> 2" using assms by (simp add: div_mult2_eq[symmetric] less_Suc_eq_le[symmetric] less_mult_imp_div_less)
  have b: "i mod 9 div 3 \<le> 2"
  proof -
    have "i mod 9 < 3 * 3" by simp
    then have "i mod 9 div 3 < 3" by (rule less_mult_imp_div_less)
    then show ?thesis by simp
  qed
  have e: "3 * (int (i div 9) div 3) + int (i mod 9) div 3 = int (3 * (i div 9 div 3) + i mod 9 div 3)"
    by (simp add: zdiv_int)
  show "0 \<le> 3 * (int (i div 9) div 3) + int (i mod 9) div 3" unfolding e by simp
  show "3 * (int (i div 9) div 3) + int (i mod 9) div 3 \<le> 8" unfolding e using a b by simp
qed

lemma set_all_conflicts:
  assumes "well_formed cells"
  shows "set (concat (map (\<lambda>r. group_conflicts cells (row_group r)) [1, 2, 3, 4, 5, 6, 7, 8, 9])
              @ concat (map (\<lambda>c. group_conflicts cells (column_group c)) [1, 2, 3, 4, 5, 6, 7, 8, 9])
              @ concat (map (\<lambda>a. group_conflicts cells (box_group a)) [0, 1, 2, 3, 4, 5, 6, 7, 8]))
         = Own ` {i. i < 81 \<and> in_conflict cells i}"
proof -
  have r: "set (concat (map (\<lambda>r. group_conflicts cells (row_group r)) [1, 2, 3, 4, 5, 6, 7, 8, 9]))
      = Own ` {i. i < 81 \<and> val (cells ! i) \<noteq> 0 \<and>
                  (\<exists>j<81. j \<noteq> i \<and> val (cells ! j) = val (cells ! i) \<and> int (j div 9) + 1 = int (i div 9) + 1)}"
  proof (rule conflicts_of_kind)
    fix a :: int and i :: nat assume "a \<in> set [1, 2, 3, 4, 5, 6, 7, 8, 9]"
    then have a: "1 \<le> a" "a \<le> 9" unfolding set_1_9 by simp_all
    show "(i \<in> set (row_group a)) = (i < 81 \<and> int (i div 9) + 1 = a)"
      by (rule row_group_member(1)[OF a])
    show "distinct (row_group a)" by (rule row_group_member(2)[OF a])
  next
    fix i :: nat assume "i < 81"
    then have "i div 9 < 9" by simp
    then show "int (i div 9) + 1 \<in> set [1, 2, 3, 4, 5, 6, 7, 8, 9]" unfolding set_1_9 by simp
  qed
  have c: "set (concat (map (\<lambda>c. group_conflicts cells (column_group c)) [1, 2, 3, 4, 5, 6, 7, 8, 9]))
      = Own ` {i. i < 81 \<and> val (cells ! i) \<noteq> 0 \<and>
                  (\<exists>j<81. j \<noteq> i \<and> val (cells ! j) = val (cells ! i) \<and> int (j mod 9) + 1 = int (i mod 9) + 1)}"
  proof (rule conflicts_of_kind)
    fix a :: int and i :: nat assume "a \<in> set [1, 2, 3, 4, 5, 6, 7, 8, 9]"
    then have a: "1 \<le> a" "a \<le> 9" unfolding set_1_9 by simp_all
    show "(i \<in> set (column_group a)) = (i < 81 \<and> int (i mod 9) + 1 = a)"
      by (rule column_group_member(1)[OF a])
    show "distinct (column_group a)" by (rule column_group_member(2)[OF a])
  next
    fix i :: nat assume "i < 81"
    have "i mod 9 < 9" by simp
    then show "int (i mod 9) + 1 \<in> set [1, 2, 3, 4, 5, 6, 7, 8, 9]" unfolding set_1_9 by simp
  qed
  have b: "set (concat (map (\<lambda>a. group_conflicts cells (box_group a)) [0, 1, 2, 3, 4, 5, 6, 7, 8]))
      = Own ` {i. i < 81 \<and> val (cells ! i) \<noteq> 0 \<and>
                  (\<exists>j<81. j \<noteq> i \<and> val (cells ! j) = val (cells ! i) \<and>
                     3 * (int (j div 9) div 3) + int (j mod 9) div 3 = 3 * (int (i div 9) div 3) + int (i mod 9) div 3)}"
  proof (rule conflicts_of_kind)
    fix a :: int and i :: nat assume "a \<in> set [0, 1, 2, 3, 4, 5, 6, 7, 8]"
    then have a: "0 \<le> a" "a \<le> 8" unfolding set_0_8 by simp_all
    show "(i \<in> set (box_group a)) = (i < 81 \<and> 3 * (int (i div 9) div 3) + int (i mod 9) div 3 = a)"
      by (rule box_group_member(1)[OF a])
    show "distinct (box_group a)" by (rule box_group_member(2)[OF a])
  next
    fix i :: nat assume "i < 81"
    from box_key_range[OF this]
    show "3 * (int (i div 9) div 3) + int (i mod 9) div 3 \<in> set [0, 1, 2, 3, 4, 5, 6, 7, 8]"
      unfolding set_0_8 by simp
  qed
  have "{i. i < 81 \<and> in_conflict cells i}
        = {i. i < 81 \<and> val (cells ! i) \<noteq> 0 \<and>
                  (\<exists>j<81. j \<noteq> i \<and> val (cells ! j) = val (cells ! i) \<and> int (j div 9) + 1 = int (i div 9) + 1)}
        \<union> {i. i < 81 \<and> val (cells ! i) \<noteq> 0 \<and>
                  (\<exists>j<81. j \<noteq> i \<and> val (cells ! j) = val (cells ! i) \<and> int (j mod 9) + 1 = int (i mod 9) + 1)}
        \<union> {i. i < 81 \<and> val (cells ! i) \<noteq> 0 \<and>
                  (\<exists>j<81. j \<noteq> i \<and> val (cells ! j) = val (cells ! i) \<and>
                     3 * (int (j div 9) div 3) + int (j mod 9) div 3 = 3 * (int (i div 9) div 3) + int (i mod 9) div 3)}"
    (is "?S = ?A \<union> ?B \<union> ?C")
  proof (intro set_eqI iffI)
    fix i assume "i \<in> ?S"
    then have i: "i < 81" "in_conflict cells i" by simp_all
    from i(2) show "i \<in> ?A \<union> ?B \<union> ?C"
      unfolding in_conflict_well_formed[OF assms i(1)] using i(1) by blast
  next
    fix i assume u: "i \<in> ?A \<union> ?B \<union> ?C"
    then have i: "i < 81" by blast
    from u have "in_conflict cells i"
      unfolding in_conflict_well_formed[OF assms i] by blast
    with i show "i \<in> ?S" by simp
  qed
  then show ?thesis
    unfolding set_append r c b by (simp only: image_Un Un_assoc)
qed

lemma getConflicts_eq:
  assumes "length cells = 81"
  shows "getConflicts cells =
         Some (array_sort (\<lambda>a b. compare_cells (deref cells a) (deref cells b))
                (unique (concat (map (\<lambda>r. group_conflicts cells (row_group r)) [1, 2, 3, 4, 5, 6, 7, 8, 9])
                         @ concat (map (\<lambda>c. group_conflicts cells (column_group c)) [1, 2, 3, 4, 5, 6, 7, 8, 9])
                         @ concat (map (\<lambda>a. group_conflicts cells (box_group a)) [0, 1, 2, 3, 4, 5, 6, 7, 8]))))"
  by (simp only: getConflicts_def check_rows[OF assms] check_columns[OF assms] check_boxes[OF assms]
        option.case append_Nil append_assoc)

lemma compare_cells_well_formed:
  assumes "well_formed cells" "i < 81" "j < 81"
  shows "(compare_cells (cells ! i) (cells ! j) \<le> 0) = (i \<le> j)"
proof -
  have "(compare_cells (cells ! i) (cells ! j) \<le> 0)
        = (i div 9 < j div 9 \<or> (i div 9 = j div 9 \<and> i mod 9 \<le> j mod 9))"
    unfolding compare_cells_def box_of_well_formed(1,2)[OF assms(1,2)] box_of_well_formed(1,2)[OF assms(1,3)]
    by (simp only: add_less_cancel_right of_nat_less_iff split: if_splits) auto
  then show ?thesis by (simp only: lex_div_mod)
qed

lemma sort_unique_own:
  assumes "well_formed cells" and all: "set all = Own ` {i. i < 81 \<and> P i}"
  shows "array_sort (\<lambda>a b. compare_cells (deref cells a) (deref cells b)) (unique all)
         = map Own (filter P [0..<81])"
proof -
  let ?cmp = "\<lambda>a b. compare_cells (deref cells a) (deref cells b)"
  let ?res = "array_sort ?cmp (unique all)"
  let ?S = "{i. i < 81 \<and> P i}"
  have set_res: "set ?res = Own ` ?S"
    by (simp only: set_array_sort set_unique all)
  have dist_res: "distinct ?res"
    by (intro distinct_array_sort distinct_unique)
  have agree: "\<forall>a\<in>set (unique all). \<forall>b\<in>set (unique all). (?cmp a b \<le> 0) = (own_index a \<le> own_index b)"
  proof (intro ballI)
    fix a b assume "a \<in> set (unique all)" "b \<in> set (unique all)"
    then have "a \<in> Own ` ?S" "b \<in> Own ` ?S"
      by (simp_all only: set_unique all)
    then obtain i j where "a = Own i" "i < 81" "b = Own j" "j < 81" by blast
    then show "(?cmp a b \<le> 0) = (own_index a \<le> own_index b)"
      using compare_cells_well_formed[OF assms(1), of i j] by (simp add: own_index_def)
  qed
  have sorted_res: "sorted (map own_index ?res)"
    using agree by (rule sorted_array_sort)
  have own: "map Own (map own_index ?res) = ?res"
  proof -
    have "\<forall>c\<in>set ?res. Own (own_index c) = c"
      unfolding set_res by (auto simp: own_index_def)
    then show ?thesis by (simp add: map_idI)
  qed
  have "distinct (map own_index ?res)"
  proof -
    have "inj_on own_index (set ?res)"
      unfolding set_res by (auto simp: inj_on_def own_index_def)
    with dist_res show ?thesis by (simp add: distinct_map)
  qed
  moreover have "set (map own_index ?res) = ?S"
    unfolding set_map set_res by (auto simp: own_index_def image_iff)
  moreover have "set (filter P [0..<81]) = ?S" by auto
  moreover have "sorted (filter P [0..<81])" by (simp add: sorted_filter[where f = id, simplified])
  moreover have "distinct (filter P [0..<81])" by simp
  ultimately have "map own_index ?res = filter P [0..<81]"
    using sorted_res by (intro sorted_distinct_set_unique) simp_all
  with own show ?thesis by simp
qed

lemma getConflicts_sorted_list:
  assumes "well_formed cells"
  shows "getConflicts cells = Some (map Own (filter (in_conflict cells) [0..<81]))"
proof -
  have len: "length cells = 81" using assms by (simp add: well_formed_def)
  show ?thesis
    by (simp only: getConflicts_eq[OF len] sort_unique_own[OF assms set_all_conflicts[OF assms]])
qed

lemma setCellValue_puzzle1_conflict: "setCellValue (board_of puzzle1) 1 1 9 = Some (True, puzzle1_conflict)"
  by code_simp

lemma reachable_puzzle1_conflict: "reachable puzzle1_conflict"
  using reachable_puzzle1 setCellValue_puzzle1_conflict by (rule reachable.after_setCellValue)

lemma getConflicts_puzzle1_conflict: "getConflicts puzzle1_conflict = Some [Own 0, Own 4]"
  by code_simp

lemma position_inj:
  assumes "i div 9 = j div 9" "i mod 9 = j mod (9::nat)"
  shows "i = j"
  by (metis assms div_mult_mod_eq)

lemma lex_int:
  assumes "a < c \<or> (a = c \<and> b < (d::nat))"
  shows "int a + 1 < int c + 1 \<or> (int a + 1 = int c + 1 \<and> int b + 1 < int d + 1)"
  using assms by auto

lemma index_div_mod:
  assumes "1 \<le> r" "r \<le> 9" "1 \<le> c" "c \<le> (9::int)"
  shows "int (nat (calcCellIndexFromBoardPosition r c) div 9) + 1 = r"
    and "int (nat (calcCellIndexFromBoardPosition r c) mod 9) + 1 = c"
proof -
  let ?R = "nat (r - 1)" and ?C = "nat (c - 1)"
  have C: "?C < 9" using assms by simp
  have "nat (calcCellIndexFromBoardPosition r c) = ?R * 9 + ?C"
    using assms by (simp add: calcCellIndexFromBoardPosition_def nat_add_distrib nat_mult_distrib)
  then have "nat (calcCellIndexFromBoardPosition r c) div 9 = ?R"
    and "nat (calcCellIndexFromBoardPosition r c) mod 9 = ?C"
    using C by simp_all
  then show "int (nat (calcCellIndexFromBoardPosition r c) div 9) + 1 = r"
    and "int (nat (calcCellIndexFromBoardPosition r c) mod 9) + 1 = c"
    using assms by simp_all
qed

lemma getCell_puzzle1_given:
  "getCell (board_of puzzle1) 1 5 = Some (Fresh \<lparr>row = 1, column = 5, val = 9, isFixed = True\<rparr>)"
  by code_simp

lemma getCell_puzzle1_empty:
  "getCell (board_of puzzle1) 1 1 = Some (Fresh \<lparr>row = 1, column = 1, val = 0, isFixed = False\<rparr>)"
  by code_simp

lemma setCellValue_stores_any_value:
  assumes "setCellValue cells r c v = Some (True, cells')"
  shows "\<exists>c'. getCell cells' r c = Some (Fresh c') \<and> val c' = v"
proof -
  from setCellValue_result[OF assms] obtain i where
    i: "i < length cells" "calcCellIndexFromBoardPosition r c = int i" "\<not> isFixed (cells ! i)"
       "cells' = cells[i := (cells ! i)\<lparr>val := v\<rparr>]"
    by (auto split: if_splits)
  then show ?thesis
    by (simp add: getCell_def getCellAtPosition_def array_get_def)
qed

lemma values_in_range_preserved:
  "(Board d = Inr cells \<longrightarrow> values_in_range cells) \<and>
   (values_in_range cells \<and> ((0 \<le> v \<and> v \<le> 9) \<or> \<not> ok) \<and> setCellValue cells r c v = Some (ok, cells')
      \<longrightarrow> values_in_range cells') \<and>
   (values_in_range cells \<and> restart cells = Some cells'' \<longrightarrow> values_in_range cells'')"
proof (intro conjI impI)
  assume "Board d = Inr cells"
  then show "values_in_range cells" by (rule values_in_range_Board)
next
  assume a: "values_in_range cells \<and> ((0 \<le> v \<and> v \<le> 9) \<or> \<not> ok) \<and> setCellValue cells r c v = Some (ok, cells')"
  then obtain i where i: "ok = (\<not> isFixed (cells ! i))"
    "cells' = (if isFixed (cells ! i) then cells else cells[i := (cells ! i)\<lparr>val := v\<rparr>])"
    using setCellValue_result by blast
  show "values_in_range cells'"
  proof (cases ok)
    case True
    with a i show ?thesis by (simp add: values_in_range_update)
  next
    case False
    with a i show ?thesis by simp
  qed
next
  assume "values_in_range cells \<and> restart cells = Some cells''"
  then show "values_in_range cells''" using values_in_range_restart by blast
qed

section \<open>Properties of the board\<close>

subsection \<open>Construction\<close>

text \<open>
  C3: for every string of exactly 81 decimal digits the construction succeeds, and the cell
  at index \<open>i\<close> of \<^verbatim>\<open>getBoard()\<close> has row \<open>i div 9 + 1\<close>, column \<open>i mod 9 + 1\<close>, the value of
  digit \<open>i\<close>, and is fixed exactly when that digit is not zero.
\<close>

theorem Board_valid_definition:
  assumes "length s = 81" and "\<forall>ch\<in>set s. is_digit ch"
  shows "\<exists>cells. Board (JSString s) = Inr cells \<and> length (getBoard cells) = 81 \<and>
           (\<forall>i<81. getBoard cells ! i =
              \<lparr>row = int (i div 9) + 1, column = int (i mod 9) + 1,
               val = digit_value (s ! i), isFixed = (digit_value (s ! i) \<noteq> 0)\<rparr>)"
  using Board_digits[OF assms] by (simp add: getBoard_def new_cell_def)

theorem Board_valid_definition_witness:
  "length puzzle1 = 81 \<and> list_all is_digit puzzle1 \<and>
   (\<exists>cells. Board (JSString puzzle1) = Inr cells \<and> length (getBoard cells) = 81 \<and>
      getBoard cells ! 4 = \<lparr>row = 1, column = 5, val = 9, isFixed = True\<rparr> \<and>
      getBoard cells ! 80 = \<lparr>row = 9, column = 9, val = 0, isFixed = False\<rparr>)"
proof -
  have len: "length puzzle1 = 81" and dig: "\<forall>ch\<in>set puzzle1. is_digit ch"
    by (rule puzzle1_digits)+
  from Board_valid_definition [OF len dig] obtain cells where
    c: "Board (JSString puzzle1) = Inr cells" "length (getBoard cells) = 81"
       "\<forall>i<81. getBoard cells ! i =
              \<lparr>row = int (i div 9) + 1, column = int (i mod 9) + 1,
               val = digit_value (puzzle1 ! i), isFixed = (digit_value (puzzle1 ! i) \<noteq> 0)\<rparr>"
    by blast
  have "getBoard cells ! 4 = \<lparr>row = 1, column = 5, val = 9, isFixed = True\<rparr>"
    using c(3)[rule_format, of 4] by (simp add: puzzle1_def digit_value_def)
  moreover have "getBoard cells ! 80 = \<lparr>row = 9, column = 9, val = 0, isFixed = False\<rparr>"
    using c(3)[rule_format, of 80] by (simp add: puzzle1_def digit_value_def)
  ultimately show ?thesis
    using len dig c(1,2) by (auto simp: list_all_iff)
qed

text \<open>
  C4: the construction fails exactly when the input is not a string, or its length is not
  81, or some character is not a decimal digit; the error tells the three causes apart,
  and a failure yields an error and no board (the result is one or the other).
\<close>

theorem Board_failure:
  "(Board d = Inl NotAString \<longleftrightarrow> (\<forall>s. d \<noteq> JSString s)) \<and>
   (Board d = Inl WrongLength \<longleftrightarrow> (\<exists>s. d = JSString s \<and> length s \<noteq> 81)) \<and>
   (Board d = Inl InvalidCellValue \<longleftrightarrow>
      (\<exists>s. d = JSString s \<and> length s = 81 \<and> (\<exists>ch\<in>set s. \<not> is_digit ch))) \<and>
   ((\<exists>cells. Board d = Inr cells) \<longleftrightarrow>
      (\<exists>s. d = JSString s \<and> length s = 81 \<and> (\<forall>ch\<in>set s. is_digit ch)))"
proof (cases d)
  case (JSString s)
  show ?thesis
  proof (cases "length s = 81")
    case False
    then show ?thesis using JSString by (simp add: Board_def)
  next
    case len: True
    show ?thesis
    proof (cases "\<forall>ch\<in>set s. is_digit ch")
      case True
      with Board_digits[OF len True] JSString len show ?thesis by auto
    next
      case False
      then have "\<exists>ch\<in>set s. \<not> is_digit ch" by simp
      from Board_nondigit[OF len this] JSString len False show ?thesis by auto
    qed
  qed
qed (simp_all add: Board_def)

theorem Board_failure_witness:
  "Board (JSNumber 5) = Inl NotAString \<and>
   Board (JSString ''123'') = Inl WrongLength \<and>
   Board (JSString puzzle_bad_char) = Inl InvalidCellValue \<and>
   (\<exists>cells. Board (JSString puzzle1) = Inr cells)"
proof -
  have 1: "\<forall>s. JSNumber 5 \<noteq> JSString s" by simp
  have 2: "\<exists>s. JSString ''123'' = JSString s \<and> length s \<noteq> 81" by simp
  have 3: "\<exists>s. JSString puzzle_bad_char = JSString s \<and> length s = 81 \<and> (\<exists>ch\<in>set s. \<not> is_digit ch)"
    by (simp add: puzzle_bad_char_def is_digit_def)
  have 4: "\<exists>s. JSString puzzle1 = JSString s \<and> length s = 81 \<and> (\<forall>ch\<in>set s. is_digit ch)"
    using puzzle1_digits by simp
  have a: "Board (JSNumber 5) = Inl NotAString"
    by (rule iffD2[OF Board_failure [of "JSNumber 5", THEN conjunct1] 1])
  have b: "Board (JSString ''123'') = Inl WrongLength"
    by (rule iffD2[OF Board_failure [of "JSString ''123''", THEN conjunct2, THEN conjunct1] 2])
  have c: "Board (JSString puzzle_bad_char) = Inl InvalidCellValue"
    by (rule iffD2[OF Board_failure [of "JSString puzzle_bad_char", THEN conjunct2, THEN conjunct2, THEN conjunct1] 3])
  have d: "\<exists>cells. Board (JSString puzzle1) = Inr cells"
    by (rule iffD2[OF Board_failure [of "JSString puzzle1", THEN conjunct2, THEN conjunct2, THEN conjunct2] 4])
  from a b c d show ?thesis by (intro conjI)
qed

subsection \<open>Writing a cell\<close>

text \<open>
  C5: on a board in any reachable state, for a position in \<open>[1,9] \<times> [1,9]\<close> and any value
  \<open>v\<close>: the cell that \<^verbatim>\<open>getCell\<close> and \<^verbatim>\<open>setCellValue\<close> address is the one whose row and column
  are that position; if it is fixed, \<^verbatim>\<open>setCellValue\<close> returns false and leaves the board as it
  is; if it is not fixed, \<^verbatim>\<open>setCellValue\<close> returns true and \<^verbatim>\<open>getCell\<close> then shows that cell
  with the value \<open>v\<close>.
\<close>

theorem setCellValue_contract:
  assumes "reachable cells" and "1 \<le> r" and "r \<le> 9" and "1 \<le> c" and "c \<le> 9"
  shows "\<exists>c0. getCell cells r c = Some (Fresh c0) \<and> row c0 = r \<and> column c0 = c \<and>
           (if isFixed c0 then setCellValue cells r c v = Some (False, cells)
            else (\<exists>cells'. setCellValue cells r c v = Some (True, cells') \<and>
                    getCell cells' r c = Some (Fresh (c0\<lparr>val := v\<rparr>))))"
proof -
  let ?i = "nat (calcCellIndexFromBoardPosition r c)"
  have wf: "well_formed cells" using assms(1) by (rule reachable_well_formed)
  then have len: "length cells = 81" by (simp add: well_formed_def)
  have lt: "?i < length cells" and lt81: "?i < 81"
    using len index_in_range[OF assms(2-5)] by simp_all
  have g: "getCell cells r c = Some (Fresh (cells ! ?i))"
    using len assms(2-5) by (simp add: getCell_def getCellAtPosition_in_range)
  have pos: "row (cells ! ?i) = r" "column (cells ! ?i) = c"
    using box_of_well_formed(1,2)[OF wf lt81] index_div_mod[OF assms(2-5)] by simp_all
  show ?thesis
  proof (cases "isFixed (cells ! ?i)")
    case True
    then have "setCellValue cells r c v = Some (False, cells)"
      using len assms(2-5) by (simp add: setCellValue_def getCellAtPosition_in_range)
    with g pos True show ?thesis by simp
  next
    case False
    let ?cells' = "cells[?i := (cells ! ?i)\<lparr>val := v\<rparr>]"
    have s: "setCellValue cells r c v = Some (True, ?cells')"
      using len assms(2-5) False lt by (simp add: setCellValue_def getCellAtPosition_in_range)
    have "length ?cells' = 81" using len by simp
    then have "getCell ?cells' r c = Some (Fresh (?cells' ! ?i))"
      using assms(2-5) by (simp add: getCell_def getCellAtPosition_in_range)
    then have "getCell ?cells' r c = Some (Fresh ((cells ! ?i)\<lparr>val := v\<rparr>))"
      using lt by simp
    with g s pos False show ?thesis by simp
  qed
qed

theorem setCellValue_contract_witness:
  "reachable (board_of puzzle1) \<and> (1::int) \<le> 1 \<and> (1::int) \<le> 5 \<and> (5::int) \<le> 9 \<and>
   getCell (board_of puzzle1) 1 5 = Some (Fresh \<lparr>row = 1, column = 5, val = 9, isFixed = True\<rparr>) \<and>
   setCellValue (board_of puzzle1) 1 5 3 = Some (False, board_of puzzle1) \<and>
   getCell (board_of puzzle1) 1 1 = Some (Fresh \<lparr>row = 1, column = 1, val = 0, isFixed = False\<rparr>) \<and>
   (\<exists>cells'. setCellValue (board_of puzzle1) 1 1 5 = Some (True, cells') \<and>
      getCell cells' 1 1 = Some (Fresh \<lparr>row = 1, column = 1, val = 5, isFixed = False\<rparr>))"
proof -
  have h: "reachable (board_of puzzle1)" by (rule reachable_puzzle1)
  have fixed: "setCellValue (board_of puzzle1) 1 5 3 = Some (False, board_of puzzle1)"
    using setCellValue_contract [OF h, of 1 5 3] getCell_puzzle1_given by auto
  have free: "\<exists>cells'. setCellValue (board_of puzzle1) 1 1 5 = Some (True, cells') \<and>
      getCell cells' 1 1 = Some (Fresh \<lparr>row = 1, column = 1, val = 5, isFixed = False\<rparr>)"
    using setCellValue_contract [OF h, of 1 1 5] getCell_puzzle1_empty by auto
  from h fixed free getCell_puzzle1_given getCell_puzzle1_empty show ?thesis by simp
qed

text \<open>
  C6 (a defect of the code): \<^verbatim>\<open>setCellValue\<close> stores the value it is given without looking
  at it, so the values of a board do not stay in \<open>[0,9]\<close>. On the board of \<open>puzzle1\<close>, whose
  values are all in range, \<^verbatim>\<open>setCellValue(1, 1, 10)\<close> returns true and the first cell then
  holds 10. The comment of \<^verbatim>\<open>Cell\<close> gives the interval \<open>[0, 9]\<close> for the value, \<^verbatim>\<open>init\<close> rejects a
  number above 9, and the key handler of the source passes 10 for the key codes 58 and 106.
\<close>

theorem setCellValue_stores_out_of_range:
  "values_in_range (board_of puzzle1) \<and>
   setCellValue (board_of puzzle1) 1 1 10 = Some (True, puzzle1_ten) \<and>
   getCell puzzle1_ten 1 1 = Some (Fresh \<lparr>row = 1, column = 1, val = 10, isFixed = False\<rparr>) \<and>
   \<not> values_in_range puzzle1_ten"
  by code_simp

text \<open>
  C10: for a position in \<open>[1,9] \<times> [1,9]\<close>, \<^verbatim>\<open>setCellValue\<close> leaves every other cell as it is
  and changes no row, column or fixed flag; \<^verbatim>\<open>restart\<close> changes no row, column or fixed
  flag either.
\<close>

theorem frame_conditions:
  assumes "length cells = 81" and "1 \<le> r" and "r \<le> 9" and "1 \<le> c" and "c \<le> 9"
  shows "(\<exists>ok cells'. setCellValue cells r c v = Some (ok, cells') \<and> length cells' = 81 \<and>
            (\<forall>i<81. i \<noteq> nat (calcCellIndexFromBoardPosition r c) \<longrightarrow> cells' ! i = cells ! i) \<and>
            (\<forall>i<81. row (cells' ! i) = row (cells ! i) \<and> column (cells' ! i) = column (cells ! i) \<and>
                     isFixed (cells' ! i) = isFixed (cells ! i))) \<and>
         (\<exists>cells'. restart cells = Some cells' \<and> length cells' = 81 \<and>
            (\<forall>i<81. row (cells' ! i) = row (cells ! i) \<and> column (cells' ! i) = column (cells ! i) \<and>
                     isFixed (cells' ! i) = isFixed (cells ! i)))"
proof (rule conjI)
  let ?i = "nat (calcCellIndexFromBoardPosition r c)"
  let ?cells' = "if isFixed (cells ! ?i) then cells else cells[?i := (cells ! ?i)\<lparr>val := v\<rparr>]"
  have lt: "?i < length cells"
    using assms index_in_range[of r c] by simp
  have s: "setCellValue cells r c v = Some (\<not> isFixed (cells ! ?i), ?cells')"
    using assms lt by (simp add: setCellValue_def getCellAtPosition_in_range)
  have "length ?cells' = 81" using assms(1) by simp
  moreover have "\<forall>i<81. i \<noteq> ?i \<longrightarrow> ?cells' ! i = cells ! i" by simp
  moreover have "\<forall>i<81. row (?cells' ! i) = row (cells ! i) \<and> column (?cells' ! i) = column (cells ! i) \<and>
                     isFixed (?cells' ! i) = isFixed (cells ! i)"
    using lt by (simp add: nth_list_update)
  ultimately show "\<exists>ok cells'. setCellValue cells r c v = Some (ok, cells') \<and> length cells' = 81 \<and>
            (\<forall>i<81. i \<noteq> ?i \<longrightarrow> cells' ! i = cells ! i) \<and>
            (\<forall>i<81. row (cells' ! i) = row (cells ! i) \<and> column (cells' ! i) = column (cells ! i) \<and>
                     isFixed (cells' ! i) = isFixed (cells ! i))"
    using s by blast
next
  show "\<exists>cells'. restart cells = Some cells' \<and> length cells' = 81 \<and>
            (\<forall>i<81. row (cells' ! i) = row (cells ! i) \<and> column (cells' ! i) = column (cells ! i) \<and>
                     isFixed (cells' ! i) = isFixed (cells ! i))"
    using restart_eq[OF assms(1)] assms(1) by (simp add: reset_cell_fields)
qed

theorem frame_conditions_witness:
  "length (board_of puzzle1) = 81 \<and> (1::int) \<le> 1 \<and> (1::int) \<le> 9 \<and>
   (\<exists>ok cells'. setCellValue (board_of puzzle1) 1 1 5 = Some (ok, cells') \<and> length cells' = 81 \<and>
            (\<forall>i<81. i \<noteq> nat (calcCellIndexFromBoardPosition 1 1) \<longrightarrow> cells' ! i = board_of puzzle1 ! i) \<and>
            (\<forall>i<81. row (cells' ! i) = row (board_of puzzle1 ! i) \<and> column (cells' ! i) = column (board_of puzzle1 ! i) \<and>
                     isFixed (cells' ! i) = isFixed (board_of puzzle1 ! i))) \<and>
   (\<exists>cells'. restart (board_of puzzle1) = Some cells' \<and> length cells' = 81 \<and>
            (\<forall>i<81. row (cells' ! i) = row (board_of puzzle1 ! i) \<and> column (cells' ! i) = column (board_of puzzle1 ! i) \<and>
                     isFixed (cells' ! i) = isFixed (board_of puzzle1 ! i)))"
proof -
  have h: "length (board_of puzzle1) = 81" by (rule length_board_of_puzzle1)
  show ?thesis
    using h frame_conditions [OF h, of 1 1 5] by simp
qed

subsection \<open>Restart\<close>

text \<open>
  C8: in every state reached by calls of \<^verbatim>\<open>setCellValue\<close> (and \<^verbatim>\<open>restart\<close>), \<^verbatim>\<open>restart\<close> sets
  the value of every cell that is not fixed to 0 and leaves the fixed cells as they are;
  a second \<^verbatim>\<open>restart\<close> changes nothing.
\<close>

theorem restart_resets:
  assumes "reachable cells"
  shows "\<exists>cells'. restart cells = Some cells' \<and> length cells' = length cells \<and>
           (\<forall>i<length cells. cells' ! i = (if isFixed (cells ! i) then cells ! i else (cells ! i)\<lparr>val := 0\<rparr>)) \<and>
           restart cells' = Some cells'"
proof -
  have len: "length cells = 81" using assms by (rule reachable_length)
  have r: "restart cells = Some (map reset_cell cells)" using len by (rule restart_eq)
  have "restart (map reset_cell cells) = Some (map reset_cell (map reset_cell cells))"
    using len by (intro restart_eq) simp
  then have "restart (map reset_cell cells) = Some (map reset_cell cells)"
    by (simp add: reset_cell_idem comp_def)
  with r show ?thesis by (simp add: reset_cell_def)
qed

theorem restart_resets_witness:
  "reachable puzzle1_moved \<and>
   (\<exists>cells'. restart puzzle1_moved = Some cells' \<and> length cells' = length puzzle1_moved \<and>
           (\<forall>i<length puzzle1_moved. cells' ! i = (if isFixed (puzzle1_moved ! i) then puzzle1_moved ! i else (puzzle1_moved ! i)\<lparr>val := 0\<rparr>)) \<and>
           restart cells' = Some cells')"
  using reachable_puzzle1_moved restart_resets [OF reachable_puzzle1_moved] by simp

subsection \<open>The walk by box\<close>

text \<open>
  C9: on a board of 81 cells the walk by box calls the callback for box 1 to box 9 in turn;
  for box \<open>b\<close> the calls are exactly the 9 cells of the rows and columns of that box, row by
  row, with the group number \<open>b\<close> and the new-group flag at the first cell only. In all there
  are 81 calls, no cell twice, 9 for each box.
\<close>

theorem walkCellsByBox_traversal:
  assumes "length cells = 81"
  shows "walkCellsByBox cells record_cb [] = Some (box_trace cells) \<and>
         length (box_trace cells) = 81 \<and>
         distinct (map fst (box_trace cells)) \<and>
         list_all (\<lambda>b. filter (\<lambda>v. fst (snd v) = b) (box_trace cells)
                         = map (\<lambda>p. (getCellAtPosition cells (fst p) (snd p) False, b, p = hd (box_positions b)))
                             (box_positions b) \<and>
                       length (box_positions b) = 9 \<and> distinct (box_positions b)) [1..9]"
proof (intro conjI)
  show "walkCellsByBox cells record_cb [] = Some (box_trace cells)"
    by (simp add: walkCellsByBox_visits[OF assms] walk_visits_record box_trace_eq[OF assms])
  show "length (box_trace cells) = 81"
    by (simp add: box_trace_eq[OF assms] box_visits_props)
  have "map fst (box_trace cells) = map (\<lambda>i. Some (Own i)) (map fst box_visits)"
    by (simp add: box_trace_eq[OF assms] case_prod_unfold)
  moreover have "distinct (map (\<lambda>i. Some (Own i)) (map fst box_visits))"
    by (rule iffD2[OF distinct_map]) (simp add: box_visits_props inj_on_def)
  ultimately show "distinct (map fst (box_trace cells))"
    by (simp only:)
  show "list_all (\<lambda>b. filter (\<lambda>v. fst (snd v) = b) (box_trace cells)
                         = map (\<lambda>p. (getCellAtPosition cells (fst p) (snd p) False, b, p = hd (box_positions b)))
                             (box_positions b) \<and>
                       length (box_positions b) = 9 \<and> distinct (box_positions b)) [1..9]"
    by (simp add: box_trace_def box_positions_def upto_1_9 upto_1_3)
qed

theorem walkCellsByBox_traversal_witness:
  "length (board_of puzzle1) = 81 \<and>
   walkCellsByBox (board_of puzzle1) record_cb [] = Some (box_trace (board_of puzzle1)) \<and>
   length (box_trace (board_of puzzle1)) = 81 \<and>
   take 4 (box_trace (board_of puzzle1)) =
     [(Some (Own 0), 1, True), (Some (Own 1), 1, False), (Some (Own 2), 1, False), (Some (Own 9), 1, False)]"
proof -
  have h: "length (board_of puzzle1) = 81" by (rule length_board_of_puzzle1)
  have "take 4 (box_trace (board_of puzzle1)) =
     [(Some (Own 0), 1, True), (Some (Own 1), 1, False), (Some (Own 2), 1, False), (Some (Own 9), 1, False)]"
    by (simp add: box_trace_eq[OF h] box_visits_def upto_0_8 cellIndices_def)
  then show ?thesis
    using h walkCellsByBox_traversal [OF h] by simp
qed

subsection \<open>Win detection\<close>

text \<open>
  C1 (a defect of the code): \<^verbatim>\<open>hasWon\<close> checks the columns and the boxes only when the rows
  have already failed, so a board whose rows are each 1 to 9 wins whatever its columns and
  boxes hold. On the board of \<open>puzzle_rows_only\<close> it returns true although every column
  holds one value nine times.
\<close>

theorem hasWon_ignores_columns_and_boxes:
  "hasWon (board_of puzzle_rows_only) = Some True \<and> \<not> solved (board_of puzzle_rows_only)"
  by code_simp

subsection \<open>Conflict detection\<close>

text \<open>
  C2: in every state of a board, \<^verbatim>\<open>getConflicts\<close> returns exactly the cells whose value is not 0
  and equals the value of another cell of the same row, column or box; no cell with value 0
  is returned; no position is returned twice; and the result is in ascending order of row
  and, within a row, of column. The result is the list of the conflicting slots in index
  order.
\<close>

theorem getConflicts_exact:
  assumes "reachable cells"
  shows "\<exists>cs. getConflicts cells = Some cs \<and>
           cs = map Own (filter (in_conflict cells) [0..<81]) \<and>
           set cs = Own ` {i. i < 81 \<and> in_conflict cells i} \<and>
           list_all (\<lambda>c. val (deref cells c) \<noteq> 0) cs \<and>
           distinct (map (\<lambda>c. (row (deref cells c), column (deref cells c))) cs) \<and>
           sorted_wrt (\<lambda>a b. row a < row b \<or> (row a = row b \<and> column a < column b)) (map (deref cells) cs)"
proof -
  have wf: "well_formed cells" using assms by (rule reachable_well_formed)
  let ?is = "filter (in_conflict cells) [0..<81]"
  let ?cs = "map Own ?is"
  have g: "getConflicts cells = Some ?cs" using wf by (rule getConflicts_sorted_list)
  have s: "set ?cs = Own ` {i. i < 81 \<and> in_conflict cells i}" by auto
  have z: "list_all (\<lambda>c. val (deref cells c) \<noteq> 0) ?cs"
    by (auto simp: list_all_iff in_conflict_def)
  have pos: "row (cells ! i) = int (i div 9) + 1 \<and> column (cells ! i) = int (i mod 9) + 1" if "i < 81" for i
    using box_of_well_formed(1,2)[OF wf that] by simp
  have d: "distinct (map (\<lambda>c. (row (deref cells c), column (deref cells c))) ?cs)"
  proof -
    have "inj_on (\<lambda>i. (row (cells ! i), column (cells ! i))) (set ?is)"
    proof (rule inj_onI)
      fix i j assume "i \<in> set ?is" "j \<in> set ?is"
        and e: "(row (cells ! i), column (cells ! i)) = (row (cells ! j), column (cells ! j))"
      then have "i < 81" "j < 81" by simp_all
      with e pos[of i] pos[of j] have "i div 9 = j div 9" "i mod 9 = j mod 9" by simp_all
      then show "i = j" by (rule position_inj)
    qed
    then have "distinct (map (\<lambda>i. (row (cells ! i), column (cells ! i))) ?is)"
      by (simp add: distinct_map)
    then show ?thesis by (simp add: comp_def)
  qed
  have o: "sorted_wrt (\<lambda>a b. row a < row b \<or> (row a = row b \<and> column a < column b)) (map (deref cells) ?cs)"
  proof -
    have "sorted_wrt (<) ?is" by (intro sorted_wrt_filter sorted_wrt_upt)
    then have "sorted_wrt (\<lambda>i j. row (cells ! i) < row (cells ! j) \<or>
                 (row (cells ! i) = row (cells ! j) \<and> column (cells ! i) < column (cells ! j))) ?is"
    proof (rule sorted_wrt_mono_rel[rotated])
      fix i j assume "i \<in> set ?is" "j \<in> set ?is" and lt: "i < j"
      then have "i < 81" "j < 81" by simp_all
      then have p: "row (cells ! i) = int (i div 9) + 1" "column (cells ! i) = int (i mod 9) + 1"
        "row (cells ! j) = int (j div 9) + 1" "column (cells ! j) = int (j mod 9) + 1"
        using pos by simp_all
      have "i div 9 < j div 9 \<or> (i div 9 = j div 9 \<and> i mod 9 < j mod 9)"
        using lt by (simp only: lex_div_mod_strict)
      then show "row (cells ! i) < row (cells ! j) \<or>
            (row (cells ! i) = row (cells ! j) \<and> column (cells ! i) < column (cells ! j))"
        unfolding p by (rule lex_int)
    qed
    then show ?thesis by (simp add: sorted_wrt_map comp_def)
  qed
  from g s z d o show ?thesis by blast
qed

theorem getConflicts_exact_witness:
  "reachable puzzle1_conflict \<and>
   (\<exists>cs. getConflicts puzzle1_conflict = Some cs \<and> cs = [Own 0, Own 4] \<and>
           cs = map Own (filter (in_conflict puzzle1_conflict) [0..<81]) \<and>
           set cs = Own ` {i. i < 81 \<and> in_conflict puzzle1_conflict i} \<and>
           list_all (\<lambda>c. val (deref puzzle1_conflict c) \<noteq> 0) cs \<and>
           distinct (map (\<lambda>c. (row (deref puzzle1_conflict c), column (deref puzzle1_conflict c))) cs) \<and>
           sorted_wrt (\<lambda>a b. row a < row b \<or> (row a = row b \<and> column a < column b))
             (map (deref puzzle1_conflict) cs))"
  using reachable_puzzle1_conflict getConflicts_exact [OF reachable_puzzle1_conflict]
    getConflicts_puzzle1_conflict
  by auto

subsection \<open>Cells handed out\<close>

text \<open>
  C7 (a defect of the code): \<^verbatim>\<open>getConflicts\<close> returns the board's own cell objects. On the
  board of \<open>puzzle_two_fives\<close> it returns the cells of slots 0 and 1; assigning 7 to the
  \<^verbatim>\<open>value\<close> of the first changes what \<^verbatim>\<open>getCell(1, 1)\<close> shows from 5 to 7, although that cell
  is fixed.
\<close>

theorem getConflicts_returns_own_cells:
  "getConflicts (board_of puzzle_two_fives) = Some [Own 0, Own 1] \<and>
   map_option (deref (board_of puzzle_two_fives)) (getCell (board_of puzzle_two_fives) 1 1)
     = Some \<lparr>row = 1, column = 1, val = 5, isFixed = True\<rparr> \<and>
   map_option (deref (snd (assign_value (Own 0) 7 (board_of puzzle_two_fives))))
      (getCell (snd (assign_value (Own 0) 7 (board_of puzzle_two_fives))) 1 1)
     = Some \<lparr>row = 1, column = 1, val = 7, isFixed = True\<rparr>"
  by code_simp

end
